theory Spec2Isabelle
  imports Main "HOL-Library.Word"
begin

unbundle bit_operations_syntax

section \<open>The single-producer/single-consumer ring buffer of \<open>include/spsc_queue.h\<close>\<close>

text \<open>
  The class template \<open>nsqueue::spsc_queue<T, N>\<close> is embedded with explicit state
  passing. \<open>index_t\<close> is \<open>std::size_t\<close>, a 64-bit unsigned integer whose arithmetic
  wraps. The template parameter \<open>N\<close> is passed to every operation that uses it; what
  the operations need of the element type \<open>T\<close> is passed as a record: the value a
  slot holds after \<open>T mObj{}\<close> and the value a \<open>T\<close> is left with after it has been the
  source of a \<open>std::move\<close> (the identity for \<open>int\<close>, the null pointer for
  \<open>std::unique_ptr\<close>).

  Names are those of the source without the trailing underscore of its members
  (\<open>readIndex\<close> for \<open>readIndex_\<close>); \<open>mask_\<close> is \<open>index_mask\<close>, \<open>size\<close> and \<open>empty\<close> are
  \<open>size_q\<close> and \<open>empty_q\<close>, and the overloads \<open>pop()\<close> and \<open>force_pop()\<close> without an
  output variable are \<open>pop_discard\<close> and \<open>force_pop_discard\<close>. The memory orders of the
  atomic loads and stores have no meaning for a single thread and are left out.
\<close>

type_synonym index_t = "64 word"

record 'a T_ops =
  value_init :: 'a
  moved_from :: "'a \<Rightarrow> 'a"

subsection \<open>Storage selection\<close>

definition STACK_BYTES :: index_t where
  "STACK_BYTES = 524288"

text \<open>
  The header guards \<open>cacheLineSize\<close> with \<open>#ifdef _cpp_lib_hardware_interference_size\<close>.
  The feature-test macro of the standard library begins with two underscores, so the
  guard is never satisfied and the \<open>#else\<close> branch gives 64.
\<close>

definition cacheLineSize :: index_t where
  "cacheLineSize = 64"

text \<open>\<open>static_assert((N & (N - 1)) == 0)\<close>: every power of two passes, and so does 0.\<close>

definition static_assert_ok :: "index_t \<Rightarrow> bool" where
  "static_assert_ok N \<longleftrightarrow> N AND (N - 1) = 0"

definition storage_bytes :: "index_t \<Rightarrow> index_t" where
  "storage_bytes N = 2 * N * cacheLineSize"

definition use_heap :: "index_t \<Rightarrow> bool" where
  "use_heap N \<longleftrightarrow> storage_bytes N > STACK_BYTES"

text \<open>
  The two specialisations of \<open>queue_storage<U, SIZE, heap>\<close>: the one for
  \<open>heap = true\<close> holds a \<open>std::array<U, SIZE>\<close> member, the one for \<open>heap = false\<close>
  holds a \<open>std::unique_ptr<U[]>\<close> that its constructor fills with one
  \<open>std::make_unique<U[]>(SIZE)\<close>. The member \<open>items_\<close> is a
  \<open>queue_storage<AlignedData, N, use_heap>\<close>.
\<close>

datatype placement = Inline_array | Heap_allocated

fun queue_storage :: "bool \<Rightarrow> placement" where
  "queue_storage True = Inline_array"
| "queue_storage False = Heap_allocated"

definition items_placement :: "index_t \<Rightarrow> placement" where
  "items_placement N = queue_storage (use_heap N)"

subsection \<open>The queue object\<close>

record ReadState =
  readIndex :: index_t
  writeIndexCache :: index_t

record WriteState =
  writeIndex :: index_t
  readIndexCache :: index_t

text \<open>
  \<open>items\<close> is the slot array, \<open>N\<close> slots long; slot \<open>i\<close> is \<open>items ! unat i\<close>. The
  source indexes the array unchecked, so an index of \<open>N\<close> or more is undefined
  behaviour there; in this model such a write leaves the list as it is. No reachable
  state has such an index (section \<open>Index bounds\<close>).
\<close>

record 'a spsc_queue =
  items :: "'a list"
  reader :: ReadState
  writer :: WriteState

definition index_mask :: "index_t \<Rightarrow> index_t" where
  "index_mask N = N - 1"

text \<open>The defaulted constructor: every slot value-initialised, every index zero.\<close>

definition construct :: "'a T_ops \<Rightarrow> index_t \<Rightarrow> 'a spsc_queue" where
  "construct T N =
     \<lparr>items = replicate (unat N) (value_init T),
      reader = \<lparr>readIndex = 0, writeIndexCache = 0\<rparr>,
      writer = \<lparr>writeIndex = 0, readIndexCache = 0\<rparr>\<rparr>"

subsection \<open>Enqueue\<close>

definition emplace :: "index_t \<Rightarrow> 'a \<Rightarrow> 'a spsc_queue \<Rightarrow> bool \<times> 'a spsc_queue" where
  "emplace N args q =
     (let writeIdx = writeIndex (writer q);
          nextWriteIdx = (writeIdx + 1) AND index_mask N;
          store = (\<lambda>q'. (True,
                     q'\<lparr>items := (items q')[unat writeIdx := args],
                        writer := (writer q')\<lparr>writeIndex := nextWriteIdx\<rparr>\<rparr>))
      in if nextWriteIdx = readIndexCache (writer q)
         then (let q' = q\<lparr>writer := (writer q)\<lparr>readIndexCache := readIndex (reader q)\<rparr>\<rparr>
               in if nextWriteIdx = readIndexCache (writer q') then (False, q')
                  else store q')
         else store q)"

definition push :: "index_t \<Rightarrow> 'a \<Rightarrow> 'a spsc_queue \<Rightarrow> bool \<times> 'a spsc_queue" where
  "push N item q = emplace N item q"

text \<open>
  The spin loop of \<open>force_emplace\<close>. Nothing but the loop itself writes
  \<open>readIndexCache\<close> while a single thread runs it, so the loop may never end: the
  result is \<open>None\<close> then.
\<close>

partial_function (option) force_emplace_spin ::
  "index_t \<Rightarrow> 'a spsc_queue \<Rightarrow> 'a spsc_queue option" where
  "force_emplace_spin nextWriteIdx q =
     (if nextWriteIdx = readIndexCache (writer q)
      then force_emplace_spin nextWriteIdx
             (q\<lparr>writer := (writer q)\<lparr>readIndexCache := readIndex (reader q)\<rparr>\<rparr>)
      else Some q)"

definition force_emplace :: "index_t \<Rightarrow> 'a \<Rightarrow> 'a spsc_queue \<Rightarrow> 'a spsc_queue option" where
  "force_emplace N args q =
     (let writeIdx = writeIndex (writer q);
          nextWriteIdx = (writeIdx + 1) AND index_mask N
      in case force_emplace_spin nextWriteIdx q of
           None \<Rightarrow> None
         | Some q' \<Rightarrow>
             Some (q'\<lparr>items := (items q')[unat writeIdx := args],
                      writer := (writer q')\<lparr>writeIndex := nextWriteIdx\<rparr>\<rparr>))"

definition force_push :: "index_t \<Rightarrow> 'a \<Rightarrow> 'a spsc_queue \<Rightarrow> 'a spsc_queue option" where
  "force_push N item q = force_emplace N item q"

subsection \<open>Dequeue\<close>

text \<open>
  \<open>pop(T& item)\<close>: the caller's variable \<open>item\<close> comes in and goes out; it keeps its
  value when the call returns \<open>false\<close>. The slot that was read is left moved-from.
\<close>

definition pop ::
  "'a T_ops \<Rightarrow> index_t \<Rightarrow> 'a \<Rightarrow> 'a spsc_queue \<Rightarrow> bool \<times> 'a \<times> 'a spsc_queue" where
  "pop T N item q =
     (let readIdx = readIndex (reader q);
          writeIdx = writeIndexCache (reader q);
          take_out = (\<lambda>q'.
             let item' = items q' ! unat readIdx;
                 q'' = q'\<lparr>items := (items q')[unat readIdx := moved_from T item']\<rparr>;
                 nextReadIdx = (readIdx + 1) AND index_mask N
             in (True, item', q''\<lparr>reader := (reader q'')\<lparr>readIndex := nextReadIdx\<rparr>\<rparr>))
      in if readIdx = writeIdx
         then (let q' = q\<lparr>reader := (reader q)\<lparr>writeIndexCache := writeIndex (writer q)\<rparr>\<rparr>;
                   writeIdx = writeIndexCache (reader q')
               in if readIdx = writeIdx then (False, item, q') else take_out q')
         else take_out q)"

text \<open>\<open>pop()\<close>: the overload without an output variable reads no slot.\<close>

definition pop_discard :: "index_t \<Rightarrow> 'a spsc_queue \<Rightarrow> bool \<times> 'a spsc_queue" where
  "pop_discard N q =
     (let readIdx = readIndex (reader q);
          writeIdx = writeIndexCache (reader q);
          advance = (\<lambda>q'.
             let nextReadIdx = (readIdx + 1) AND index_mask N
             in (True, q'\<lparr>reader := (reader q')\<lparr>readIndex := nextReadIdx\<rparr>\<rparr>))
      in if readIdx = writeIdx
         then (let q' = q\<lparr>reader := (reader q)\<lparr>writeIndexCache := writeIndex (writer q)\<rparr>\<rparr>;
                   writeIdx = writeIndexCache (reader q')
               in if readIdx = writeIdx then (False, q') else advance q')
         else advance q)"

text \<open>
  The spin loop shared by the two \<open>force_pop\<close> overloads: the local \<open>writeIdx\<close> and
  the field \<open>writeIndexCache\<close> are both assigned the fresh load.
\<close>

partial_function (option) force_pop_spin ::
  "index_t \<Rightarrow> index_t \<Rightarrow> 'a spsc_queue \<Rightarrow> 'a spsc_queue option" where
  "force_pop_spin readIdx writeIdx q =
     (if readIdx = writeIdx
      then force_pop_spin readIdx (writeIndex (writer q))
             (q\<lparr>reader := (reader q)\<lparr>writeIndexCache := writeIndex (writer q)\<rparr>\<rparr>)
      else Some q)"

definition force_pop ::
  "'a T_ops \<Rightarrow> index_t \<Rightarrow> 'a spsc_queue \<Rightarrow> ('a \<times> 'a spsc_queue) option" where
  "force_pop T N q =
     (let readIdx = readIndex (reader q);
          writeIdx = writeIndexCache (reader q)
      in case force_pop_spin readIdx writeIdx q of
           None \<Rightarrow> None
         | Some q' \<Rightarrow>
             (let item' = items q' ! unat readIdx;
                  q'' = q'\<lparr>items := (items q')[unat readIdx := moved_from T item']\<rparr>;
                  nextReadIdx = (readIdx + 1) AND index_mask N
              in Some (item', q''\<lparr>reader := (reader q'')\<lparr>readIndex := nextReadIdx\<rparr>\<rparr>)))"

definition force_pop_discard :: "index_t \<Rightarrow> 'a spsc_queue \<Rightarrow> 'a spsc_queue option" where
  "force_pop_discard N q =
     (let readIdx = readIndex (reader q);
          writeIdx = writeIndexCache (reader q)
      in case force_pop_spin readIdx writeIdx q of
           None \<Rightarrow> None
         | Some q' \<Rightarrow>
             (let nextReadIdx = (readIdx + 1) AND index_mask N
              in Some (q'\<lparr>reader := (reader q')\<lparr>readIndex := nextReadIdx\<rparr>\<rparr>)))"

subsection \<open>Batch consumption\<close>

text \<open>
  A callback is a function of the element it is handed and of the caller's state
  \<open>'s\<close> (what its lambda captures by reference); it returns the caller's new state.
  The callbacks of the repository take their argument by value, so the slot is left
  moved-from as in \<open>pop\<close>.
\<close>

definition consume_one ::
  "'a T_ops \<Rightarrow> index_t \<Rightarrow> ('a \<Rightarrow> 's \<Rightarrow> 's) \<Rightarrow> 's \<Rightarrow> 'a spsc_queue
     \<Rightarrow> bool \<times> 's \<times> 'a spsc_queue" where
  "consume_one T N func s q =
     (let readIdx = readIndex (reader q);
          writeIdx = writeIndexCache (reader q);
          call = (\<lambda>q'.
             let arg = items q' ! unat readIdx;
                 q'' = q'\<lparr>items := (items q')[unat readIdx := moved_from T arg]\<rparr>;
                 s' = func arg s;
                 nextReadIdx = (readIdx + 1) AND index_mask N
             in (True, s', q''\<lparr>reader := (reader q'')\<lparr>readIndex := nextReadIdx\<rparr>\<rparr>))
      in if readIdx = writeIdx
         then (let q' = q\<lparr>reader := (reader q)\<lparr>writeIndexCache := writeIndex (writer q)\<rparr>\<rparr>;
                   writeIdx = writeIndexCache (reader q')
               in if readIdx = writeIdx then (False, s, q') else call q')
         else call q)"

text \<open>\<open>while (consume_one(func)) ++n;\<close> with the counter \<open>n\<close> of type \<open>index_t\<close>.\<close>

partial_function (option) consume_all_loop ::
  "'a T_ops \<Rightarrow> index_t \<Rightarrow> ('a \<Rightarrow> 's \<Rightarrow> 's) \<Rightarrow> index_t \<Rightarrow> 's \<Rightarrow> 'a spsc_queue
     \<Rightarrow> (index_t \<times> 's \<times> 'a spsc_queue) option" where
  "consume_all_loop T N func n s q =
     (let r = consume_one T N func s q
      in if fst r then consume_all_loop T N func (n + 1) (fst (snd r)) (snd (snd r))
         else Some (n, fst (snd r), snd (snd r)))"

definition consume_all ::
  "'a T_ops \<Rightarrow> index_t \<Rightarrow> ('a \<Rightarrow> 's \<Rightarrow> 's) \<Rightarrow> 's \<Rightarrow> 'a spsc_queue
     \<Rightarrow> (index_t \<times> 's \<times> 'a spsc_queue) option" where
  "consume_all T N func s q = consume_all_loop T N func 0 s q"

text \<open>
  \<open>for (; m < n; ++m) if (!consume_one(func)) break;\<close> The guard \<open>m < n\<close> bounds
  the loop, so it is a total function.
\<close>

function consume_n_loop ::
  "'a T_ops \<Rightarrow> index_t \<Rightarrow> ('a \<Rightarrow> 's \<Rightarrow> 's) \<Rightarrow> index_t \<Rightarrow> index_t \<Rightarrow> 's \<Rightarrow> 'a spsc_queue
     \<Rightarrow> index_t \<times> 's \<times> 'a spsc_queue" where
  "consume_n_loop T N func n m s q =
     (if m < n
      then (let r = consume_one T N func s q
            in if \<not> fst r then (m, fst (snd r), snd (snd r))
               else consume_n_loop T N func n (m + 1) (fst (snd r)) (snd (snd r)))
      else (m, s, q))"
  by pat_completeness auto
termination
proof (relation "measure (\<lambda>(T, N, func, n, m, s, q). unat n - unat m)")
  show "wf (measure (\<lambda>(T, N, func, n, m, s, q). unat n - unat m))"
    by simp
next
  fix T :: "'a T_ops" and N :: index_t and func :: "'a \<Rightarrow> 's \<Rightarrow> 's"
    and n m :: index_t and s :: 's and q :: "'a spsc_queue"
    and x :: "bool \<times> 's \<times> 'a spsc_queue"
  assume less: "m < n"
  then have mn: "unat m < unat n" by (simp add: word_less_nat_alt)
  have "unat n < 2 ^ LENGTH(64)" by (rule unsigned_less)
  with mn have "unat m + unat (1::index_t) < 2 ^ LENGTH(64)" by simp
  then have "unat (m + 1) = unat m + unat (1::index_t)"
    by (rule unat_add_lem [THEN iffD1])
  with mn show "((T, N, func, n, m + 1, fst (snd x), snd (snd x)), (T, N, func, n, m, s, q))
          \<in> measure (\<lambda>(T, N, func, n, m, s, q). unat n - unat m)"
    by simp
qed

definition consume_n ::
  "'a T_ops \<Rightarrow> index_t \<Rightarrow> ('a \<Rightarrow> 's \<Rightarrow> 's) \<Rightarrow> index_t \<Rightarrow> 's \<Rightarrow> 'a spsc_queue
     \<Rightarrow> index_t \<times> 's \<times> 'a spsc_queue" where
  "consume_n T N func n s q = consume_n_loop T N func n 0 s q"

subsection \<open>Queries and reset\<close>

definition full :: "index_t \<Rightarrow> 'a spsc_queue \<Rightarrow> bool" where
  "full N q =
     (let writeIdx = writeIndex (writer q);
          nextWriteIdx = (writeIdx + 1) AND index_mask N;
          readIdx = readIndex (reader q)
      in nextWriteIdx = readIdx)"

definition size_q :: "index_t \<Rightarrow> 'a spsc_queue \<Rightarrow> index_t" where
  "size_q N q =
     (let w = writeIndex (writer q);
          r = readIndex (reader q)
      in if w \<ge> r then w - r else (N - r) + w)"

definition empty_q :: "'a spsc_queue \<Rightarrow> bool" where
  "empty_q q \<longleftrightarrow> writeIndex (writer q) = readIndex (reader q)"

definition read_available :: "index_t \<Rightarrow> 'a spsc_queue \<Rightarrow> index_t" where
  "read_available N q = size_q N q"

definition capacity :: "index_t \<Rightarrow> index_t" where
  "capacity N = index_mask N"

definition reset :: "'a spsc_queue \<Rightarrow> 'a spsc_queue" where
  "reset q =
     q\<lparr>writer := (writer q)\<lparr>readIndexCache := 0, writeIndex := 0\<rparr>,
       reader := (reader q)\<lparr>writeIndexCache := 0, readIndex := 0\<rparr>\<rparr>"

text \<open>
  \<open>front()\<close> loads \<open>reader_.readIdx_\<close>. The struct \<open>ReadState\<close> declares the members
  \<open>readIndex_\<close> and \<open>writeIndexCache_\<close> and no other, so member lookup is written out:
  a name that \<open>ReadState\<close> does not declare selects nothing, and a \<open>front\<close> whose
  member access selects nothing is ill-formed and yields no element (\<open>None\<close>).
\<close>

definition ReadState_member :: "string \<Rightarrow> ReadState \<Rightarrow> index_t option" where
  "ReadState_member name rs =
     (if name = ''readIndex_'' then Some (readIndex rs)
      else if name = ''writeIndexCache_'' then Some (writeIndexCache rs)
      else None)"

definition front :: "'a spsc_queue \<Rightarrow> 'a option" where
  "front q =
     (case ReadState_member ''readIdx_'' (reader q) of
        None \<Rightarrow> None
      | Some r \<Rightarrow> Some (items q ! unat r))"

section \<open>Callers and reachable states\<close>

text \<open>
  A caller that enqueues the values of a list one after the other and records what each
  \<open>emplace\<close> returned, and a caller that calls \<open>pop(item)\<close> a given number of times
  on one variable \<open>item\<close> and records each return value with the value \<open>item\<close> holds
  after the call. These are the loops of the unit tests.
\<close>

fun emplace_seq :: "index_t \<Rightarrow> 'a list \<Rightarrow> 'a spsc_queue \<Rightarrow> bool list \<times> 'a spsc_queue" where
  "emplace_seq N [] q = ([], q)"
| "emplace_seq N (x # xs) q =
     (let (ok, q') = emplace N x q;
          (oks, q'') = emplace_seq N xs q'
      in (ok # oks, q''))"

fun pop_seq ::
  "'a T_ops \<Rightarrow> index_t \<Rightarrow> nat \<Rightarrow> 'a \<Rightarrow> 'a spsc_queue \<Rightarrow> (bool \<times> 'a) list \<times> 'a spsc_queue" where
  "pop_seq T N 0 item q = ([], q)"
| "pop_seq T N (Suc m) item q =
     (let (ok, item', q') = pop T N item q;
          (rs, q'') = pop_seq T N m item' q'
      in ((ok, item') # rs, q''))"

text \<open>
  The states a single thread can bring a queue to, starting from the constructor, with
  the history of the run: \<open>es\<close> lists the values whose enqueue succeeded since
  construction or the last \<open>reset\<close>, oldest first, and \<open>d\<close> counts the dequeues that
  succeeded since then. The history is updated from what the operations return and
  never from the indices. \<open>s\<close> is the state of the caller that the callbacks of the
  \<open>consume\<close> family work on.
\<close>

inductive reach ::
  "'a T_ops \<Rightarrow> index_t \<Rightarrow> 'a spsc_queue \<Rightarrow> 's \<Rightarrow> 'a list \<Rightarrow> nat \<Rightarrow> bool"
  for T :: "'a T_ops" and N :: index_t where
  constructed: "reach T N (construct T N) s [] 0"
| emplace: "reach T N q s es d \<Longrightarrow> emplace N x q = (ok, q') \<Longrightarrow>
    reach T N q' s (if ok then es @ [x] else es) d"
| push: "reach T N q s es d \<Longrightarrow> push N x q = (ok, q') \<Longrightarrow>
    reach T N q' s (if ok then es @ [x] else es) d"
| force_emplace: "reach T N q s es d \<Longrightarrow> force_emplace N x q = Some q' \<Longrightarrow>
    reach T N q' s (es @ [x]) d"
| force_push: "reach T N q s es d \<Longrightarrow> force_push N x q = Some q' \<Longrightarrow>
    reach T N q' s (es @ [x]) d"
| pop: "reach T N q s es d \<Longrightarrow> pop T N item q = (ok, item', q') \<Longrightarrow>
    reach T N q' s es (if ok then Suc d else d)"
| pop_discard: "reach T N q s es d \<Longrightarrow> pop_discard N q = (ok, q') \<Longrightarrow>
    reach T N q' s es (if ok then Suc d else d)"
| force_pop: "reach T N q s es d \<Longrightarrow> force_pop T N q = Some (item', q') \<Longrightarrow>
    reach T N q' s es (Suc d)"
| force_pop_discard: "reach T N q s es d \<Longrightarrow> force_pop_discard N q = Some q' \<Longrightarrow>
    reach T N q' s es (Suc d)"
| consume_one: "reach T N q s es d \<Longrightarrow> consume_one T N func s q = (ok, s', q') \<Longrightarrow>
    reach T N q' s' es (if ok then Suc d else d)"
| consume_all: "reach T N q s es d \<Longrightarrow> consume_all T N func s q = Some (n, s', q') \<Longrightarrow>
    reach T N q' s' es (d + unat n)"
| consume_n: "reach T N q s es d \<Longrightarrow> consume_n T N func n s q = (m, s', q') \<Longrightarrow>
    reach T N q' s' es (d + unat m)"
| reset: "reach T N q s es d \<Longrightarrow> reach T N (reset q) s [] 0"

section \<open>The ring invariant\<close>

text \<open>
  The invariant is stated on natural numbers: \<open>n\<close> slots, read index \<open>r\<close>, the
  consumer's cached write index \<open>wc\<close>, write index \<open>w\<close>, the producer's cached read
  index \<open>rc\<close>, and the list \<open>xs\<close> of live elements, oldest first. Going round the
  ring from \<open>rc\<close> one meets \<open>r\<close>, then \<open>wc\<close>, then \<open>w\<close>, in less than one full turn,
  and the slots from \<open>r\<close> on hold \<open>xs\<close>.
\<close>

definition ring_ok ::
  "nat \<Rightarrow> 'a list \<Rightarrow> nat \<Rightarrow> nat \<Rightarrow> nat \<Rightarrow> nat \<Rightarrow> 'a list \<Rightarrow> bool" where
  "ring_ok n its r wc w rc xs \<longleftrightarrow>
     length its = n \<and> rc < n \<and>
     (\<exists>a j. a + length xs < n \<and> j \<le> length xs \<and>
            r = (rc + a) mod n \<and> wc = (r + j) mod n) \<and>
     w = (r + length xs) mod n \<and>
     (\<forall>i<length xs. its ! ((r + i) mod n) = xs ! i)"

definition sim :: "index_t \<Rightarrow> 'a spsc_queue \<Rightarrow> 'a list \<Rightarrow> bool" where
  "sim N q xs \<longleftrightarrow>
     ring_ok (unat N) (items q) (unat (readIndex (reader q)))
       (unat (writeIndexCache (reader q))) (unat (writeIndex (writer q)))
       (unat (readIndexCache (writer q))) xs"

text \<open>The steps the operations are made of: the two cache refreshes and the three commits.\<close>

definition load_readIndex :: "'a spsc_queue \<Rightarrow> 'a spsc_queue" where
  "load_readIndex q = q\<lparr>writer := (writer q)\<lparr>readIndexCache := readIndex (reader q)\<rparr>\<rparr>"

definition load_writeIndex :: "'a spsc_queue \<Rightarrow> 'a spsc_queue" where
  "load_writeIndex q = q\<lparr>reader := (reader q)\<lparr>writeIndexCache := writeIndex (writer q)\<rparr>\<rparr>"

definition store_slot :: "index_t \<Rightarrow> 'a \<Rightarrow> 'a spsc_queue \<Rightarrow> 'a spsc_queue" where
  "store_slot N x q =
     q\<lparr>items := (items q)[unat (writeIndex (writer q)) := x],
       writer := (writer q)\<lparr>writeIndex := (writeIndex (writer q) + 1) AND index_mask N\<rparr>\<rparr>"

definition skip_slot :: "index_t \<Rightarrow> 'a spsc_queue \<Rightarrow> 'a spsc_queue" where
  "skip_slot N q =
     q\<lparr>reader := (reader q)\<lparr>readIndex := (readIndex (reader q) + 1) AND index_mask N\<rparr>\<rparr>"

definition take_slot :: "'a T_ops \<Rightarrow> index_t \<Rightarrow> 'a spsc_queue \<Rightarrow> 'a spsc_queue" where
  "take_slot T N q =
     skip_slot N (q\<lparr>items := (items q)[unat (readIndex (reader q)) :=
                               moved_from T (items q ! unat (readIndex (reader q)))]\<rparr>)"

subsection \<open>Index arithmetic\<close>

lemma unat_pow2: "k < 64 \<Longrightarrow> unat ((2::index_t) ^ k) = 2 ^ k"
proof -
  assume k: "k < 64"
  have "(2::index_t) ^ k = of_nat (2 ^ k)" by simp
  then have "unat ((2::index_t) ^ k) = (2 ^ k) mod 2 ^ 64"
    by (simp only: unat_of_nat) simp
  moreover have "(2::nat) ^ k < 2 ^ 64" using k by (intro power_strict_increasing) simp_all
  ultimately show ?thesis by simp
qed

lemma unat_next_index:
  "k < 64 \<Longrightarrow> unat ((x + 1) AND index_mask (2 ^ k)) = (unat x + 1) mod 2 ^ k"
proof -
  assume k: "k < 64"
  have "(x + 1) AND index_mask (2 ^ k) = take_bit k (x + 1)"
    by (simp add: index_mask_def take_bit_eq_mask mask_eq_decr_exp)
  then have "unat ((x + 1) AND index_mask (2 ^ k)) = take_bit k (unat (x + 1))"
    by (simp only: unsigned_take_bit_eq)
  also have "\<dots> = unat (x + 1) mod 2 ^ k"
    by (simp only: take_bit_eq_mod)
  also have "\<dots> = ((unat x + 1) mod 2 ^ 64) mod 2 ^ k"
    by (simp add: unat_word_ariths)
  also have "\<dots> = (unat x + 1) mod 2 ^ k"
  proof (rule mod_mod_cancel)
    show "(2::nat) ^ k dvd 2 ^ 64" using k by (intro le_imp_power_dvd) simp
  qed
  finally show ?thesis .
qed

lemma ring_inj_le:
  fixes n :: nat
  assumes "i \<le> j" "j < n" "(r + i) mod n = (r + j) mod n"
  shows "i = j"
proof (rule ccontr)
  assume "i \<noteq> j"
  with assms(1) have pos: "0 < j - i" by simp
  have "r + i \<le> r + j" using assms(1) by simp
  then have "n dvd (r + j) - (r + i)"
    using assms(3) mod_eq_dvd_iff_nat [of "r + i" "r + j" n] by simp
  then have "n dvd j - i" by simp
  then have "n \<le> j - i" using pos by (rule dvd_imp_le)
  with assms(2) show False by simp
qed

lemma ring_inj:
  fixes n :: nat
  assumes "i < n" "j < n" "(r + i) mod n = (r + j) mod n"
  shows "i = j"
proof (cases "i \<le> j")
  case True
  then show ?thesis using assms ring_inj_le by blast
next
  case False
  then have "j \<le> i" by simp
  then have "j = i" using assms ring_inj_le [of j i n r] by simp
  then show ?thesis by simp
qed

lemma static_assert_zero: "static_assert_ok 0"
  by (simp add: static_assert_ok_def)

lemma static_assert_pow2: "static_assert_ok (2 ^ k)"
proof -
  have "(2::index_t) ^ k AND (2 ^ k - 1) = take_bit k ((2::index_t) ^ k)"
    by (simp add: take_bit_eq_mask mask_eq_decr_exp)
  also have "\<dots> = 0" by (simp add: take_bit_eq_mod)
  finally show ?thesis by (simp add: static_assert_ok_def)
qed

lemma unat_succ_less:
  fixes m n :: index_t
  assumes "m < n"
  shows "unat (m + 1) = unat m + 1" and "m + 1 \<le> n"
proof -
  from assms have mn: "unat m < unat n" by (simp add: word_less_nat_alt)
  have "unat n < 2 ^ LENGTH(64)" by (rule unsigned_less)
  with mn have "unat m + unat (1::index_t) < 2 ^ LENGTH(64)" by simp
  then have "unat (m + 1) = unat m + unat (1::index_t)"
    by (rule unat_add_lem [THEN iffD1])
  then show u: "unat (m + 1) = unat m + 1" by simp
  show "m + 1 \<le> n" using mn u by (simp add: word_le_nat_alt)
qed

lemma unat_of_nat_small:
  assumes "k < 64" "c < 2 ^ k"
  shows "unat (of_nat c :: index_t) = c"
proof -
  have "(2::nat) ^ k < 2 ^ 64" using assms(1) by (intro power_strict_increasing) simp_all
  with assms(2) have "c < 2 ^ LENGTH(64)" by simp
  then show ?thesis by (simp only: unat_of_nat mod_less)
qed


subsection \<open>The invariant on natural numbers\<close>

lemma ring_okD:
  assumes "ring_ok n its r wc w rc xs"
  shows "length its = n" "0 < n" "r < n" "wc < n" "w < n" "rc < n" "length xs < n"
    "w = (r + length xs) mod n"
proof -
  from assms obtain a j where
    aj: "a + length xs < n" "r = (rc + a) mod n" "wc = (r + j) mod n"
    by (auto simp: ring_ok_def)
  show "length its = n" "rc < n" "w = (r + length xs) mod n"
    using assms by (simp_all add: ring_ok_def)
  show n: "0 < n" using aj(1) by simp
  show "length xs < n" using aj(1) by simp
  show "r < n" "wc < n" "w < n"
    using n aj assms by (simp_all add: ring_ok_def)
qed

lemma ring_ok_init: "0 < n \<Longrightarrow> length its = n \<Longrightarrow> ring_ok n its 0 0 0 0 []"
  by (auto simp: ring_ok_def intro!: exI [of _ 0])

lemma ring_ok_load_read:
  assumes "ring_ok n its r wc w rc xs"
  shows "ring_ok n its r wc w r xs"
proof -
  from assms obtain a j where
    aj: "a + length xs < n" "j \<le> length xs" "r = (rc + a) mod n" "wc = (r + j) mod n"
    by (auto simp: ring_ok_def)
  have r: "r < n" using assms by (rule ring_okD)
  have "0 + length xs < n \<and> j \<le> length xs \<and> r = (r + 0) mod n \<and> wc = (r + j) mod n"
    using aj r by simp
  then have "\<exists>a j. a + length xs < n \<and> j \<le> length xs \<and> r = (r + a) mod n \<and> wc = (r + j) mod n"
    by blast
  then show ?thesis using assms r by (simp add: ring_ok_def)
qed

lemma ring_ok_load_write:
  assumes "ring_ok n its r wc w rc xs"
  shows "ring_ok n its r w w rc xs"
proof -
  from assms obtain a j where
    aj: "a + length xs < n" "j \<le> length xs" "r = (rc + a) mod n" "wc = (r + j) mod n"
    by (auto simp: ring_ok_def)
  have w: "w = (r + length xs) mod n" using assms by (rule ring_okD)
  have "a + length xs < n \<and> length xs \<le> length xs \<and> r = (rc + a) mod n \<and> w = (r + length xs) mod n"
    using aj w by simp
  then have "\<exists>a j. a + length xs < n \<and> j \<le> length xs \<and> r = (rc + a) mod n \<and> w = (r + j) mod n"
    by blast
  then show ?thesis using assms by (simp add: ring_ok_def)
qed

lemma ring_ok_full_iff:
  assumes "ring_ok n its r wc w rc xs"
  shows "(w + 1) mod n = r \<longleftrightarrow> length xs + 1 = n"
proof -
  have n: "0 < n" and r: "r < n" and len: "length xs < n"
    and w: "w = (r + length xs) mod n"
    using assms by (rule ring_okD)+
  have nxt: "(w + 1) mod n = (r + (length xs + 1)) mod n"
    unfolding w by (simp add: mod_Suc_eq)
  show ?thesis
  proof
    assume "(w + 1) mod n = r"
    then have "(r + (length xs + 1)) mod n = (r + 0) mod n" using nxt r by simp
    moreover have "(r + (length xs + 1)) mod n = (r + ((length xs + 1) mod n)) mod n"
      by (simp add: mod_add_right_eq)
    ultimately have "(r + ((length xs + 1) mod n)) mod n = (r + 0) mod n" by simp
    then have "(length xs + 1) mod n = 0"
      using ring_inj [of "(length xs + 1) mod n" n 0 r] n by simp
    then show "length xs + 1 = n" using len
      by (metis Suc_eq_plus1 Suc_lessI mod_less less_numeral_extra(3) add_is_0 zero_neq_one)
  next
    assume "length xs + 1 = n"
    then show "(w + 1) mod n = r" using nxt r by simp
  qed
qed

lemma ring_ok_empty_iff:
  assumes "ring_ok n its r wc w rc xs"
  shows "w = r \<longleftrightarrow> xs = []"
proof -
  have n: "0 < n" and r: "r < n" and len: "length xs < n"
    and w: "w = (r + length xs) mod n"
    using assms by (rule ring_okD)+
  show ?thesis
  proof
    assume "w = r"
    then have "(r + length xs) mod n = (r + 0) mod n" using w r by simp
    then have "length xs = 0" using ring_inj [of "length xs" n 0 r] len n by simp
    then show "xs = []" by simp
  next
    assume "xs = []"
    then show "w = r" using w r by simp
  qed
qed

lemma ring_ok_size:
  assumes "ring_ok n its r wc w rc xs"
  shows "(if r \<le> w then w - r else (n - r) + w) = length xs"
proof -
  have n: "0 < n" and r: "r < n" and len: "length xs < n"
    and w: "w = (r + length xs) mod n"
    using assms by (rule ring_okD)+
  show ?thesis
  proof (cases "r + length xs < n")
    case True
    then have "w = r + length xs" using w by simp
    then show ?thesis by simp
  next
    case False
    then have "n \<le> r + length xs" by simp
    moreover have "r + length xs - n < n" using r len by simp
    ultimately have "w = r + length xs - n"
      using w by (simp add: le_mod_geq)
    moreover have "\<not> r \<le> r + length xs - n" using r len False by arith
    moreover have "n - r + (r + length xs - n) = length xs" using r len False by arith
    ultimately show ?thesis by simp
  qed
qed

lemma ring_ok_store:
  assumes ok: "ring_ok n its r wc w rc xs" and room: "(w + 1) mod n \<noteq> rc"
  shows "ring_ok n (its[w := x]) r wc ((w + 1) mod n) rc (xs @ [x])"
proof -
  from ok obtain a j where
    aj: "a + length xs < n" "j \<le> length xs" "r = (rc + a) mod n" "wc = (r + j) mod n"
    by (auto simp: ring_ok_def)
  have n: "0 < n" and r: "r < n" and len: "length xs < n" and rc: "rc < n"
    and w: "w = (r + length xs) mod n" and wn: "w < n" and li: "length its = n"
    using ok by (rule ring_okD)+
  have slots: "\<forall>i<length xs. its ! ((r + i) mod n) = xs ! i"
    using ok by (simp add: ring_ok_def)
  have nxt: "(w + 1) mod n = (rc + (a + length xs + 1)) mod n"
  proof -
    have "(w + 1) mod n = (r + length xs + 1) mod n"
      unfolding w by (simp add: mod_Suc_eq)
    also have "\<dots> = ((rc + a) mod n + (length xs + 1)) mod n"
      unfolding aj(3) by (simp add: add.assoc)
    also have "\<dots> = (rc + a + (length xs + 1)) mod n"
      by (rule mod_add_left_eq)
    finally show ?thesis by (simp add: add.assoc)
  qed
  have less: "a + (length xs + 1) < n"
  proof (rule ccontr)
    assume "\<not> a + (length xs + 1) < n"
    with aj(1) have "a + length xs + 1 = n" by simp
    then have "(rc + (a + length xs + 1)) mod n = (rc + n) mod n" by simp
    with nxt have "(w + 1) mod n = (rc + n) mod n" by simp
    with rc have "(w + 1) mod n = rc" by simp
    with room show False by simp
  qed
  have w': "(w + 1) mod n = (r + length (xs @ [x])) mod n"
    unfolding w by (simp add: mod_Suc_eq)
  have slots': "\<forall>i<length (xs @ [x]). its[w := x] ! ((r + i) mod n) = (xs @ [x]) ! i"
  proof (intro allI impI)
    fix i assume i: "i < length (xs @ [x])"
    show "its[w := x] ! ((r + i) mod n) = (xs @ [x]) ! i"
    proof (cases "i = length xs")
      case True
      then have "(r + i) mod n = w" using w by simp
      then show ?thesis using True wn li by simp
    next
      case False
      with i have il: "i < length xs" by simp
      have "(r + i) mod n \<noteq> w"
      proof
        assume "(r + i) mod n = w"
        then have "(r + i) mod n = (r + length xs) mod n" using w by simp
        then have "i = length xs" using ring_inj [of i n "length xs" r] il len by simp
        with False show False by simp
      qed
      then have "its[w := x] ! ((r + i) mod n) = its ! ((r + i) mod n)" by simp
      also have "\<dots> = xs ! i" using slots il by simp
      finally show ?thesis using il by (simp add: nth_append)
    qed
  qed
  have "a + length (xs @ [x]) < n \<and> j \<le> length (xs @ [x]) \<and>
        r = (rc + a) mod n \<and> wc = (r + j) mod n"
    using less aj by simp
  then have "\<exists>a j. a + length (xs @ [x]) < n \<and> j \<le> length (xs @ [x]) \<and>
        r = (rc + a) mod n \<and> wc = (r + j) mod n" by blast
  then show ?thesis
    unfolding ring_ok_def using li rc w' slots' by simp
qed

lemma ring_ok_take:
  assumes ok: "ring_ok n its r wc w rc xs" and avail: "r \<noteq> wc"
  shows "xs \<noteq> []" and "its ! r = hd xs"
    and "ring_ok n (its[r := y]) ((r + 1) mod n) wc w rc (tl xs)"
proof -
  from ok obtain a j where
    aj: "a + length xs < n" "j \<le> length xs" "r = (rc + a) mod n" "wc = (r + j) mod n"
    by (auto simp: ring_ok_def)
  have n: "0 < n" and r: "r < n" and len: "length xs < n" and rc: "rc < n"
    and w: "w = (r + length xs) mod n" and wn: "w < n" and li: "length its = n"
    using ok by (rule ring_okD)+
  have slots: "\<forall>i<length xs. its ! ((r + i) mod n) = xs ! i"
    using ok by (simp add: ring_ok_def)
  have j: "0 < j"
  proof (rule ccontr)
    assume "\<not> 0 < j"
    then have "wc = r" using aj(4) r by simp
    with avail show False by simp
  qed
  have pos: "0 < length xs" using j aj(2) by (rule less_le_trans)
  then show ne: "xs \<noteq> []" by auto
  have "its ! ((r + 0) mod n) = xs ! 0" using slots pos by blast
  then show "its ! r = hd xs" using r ne by (simp add: hd_conv_nth)
  have shift: "((r + 1) mod n + m) mod n = (r + (m + 1)) mod n" for m
  proof -
    have "((r + 1) mod n + m) mod n = (r + 1 + m) mod n" by (rule mod_add_left_eq)
    then show ?thesis by (simp add: add.commute add.left_commute)
  qed
  have r': "(r + 1) mod n = (rc + (a + 1)) mod n"
  proof -
    have "(r + 1) mod n = ((rc + a) mod n + 1) mod n" using aj(3) by simp
    also have "\<dots> = (rc + a + 1) mod n" by (rule mod_add_left_eq)
    finally show ?thesis by (simp add: add.assoc)
  qed
  have ej: "j - 1 + 1 = j" using j by simp
  have el: "length (tl xs) + 1 = length xs" using pos by simp
  have wc': "wc = ((r + 1) mod n + (j - 1)) mod n"
    using aj(4) by (simp only: shift ej)
  have w': "w = ((r + 1) mod n + length (tl xs)) mod n"
    using w by (simp only: shift el)
  have slots': "\<forall>i<length (tl xs). its[r := y] ! (((r + 1) mod n + i) mod n) = tl xs ! i"
  proof (intro allI impI)
    fix i assume i: "i < length (tl xs)"
    then have i1: "i + 1 < length xs" by simp
    have "(r + (i + 1)) mod n \<noteq> r"
    proof
      assume "(r + (i + 1)) mod n = r"
      then have "(r + (i + 1)) mod n = (r + 0) mod n" using r by simp
      then have "i + 1 = 0" using ring_inj [of "i + 1" n 0 r] i1 len n by simp
      then show False by simp
    qed
    then have "its[r := y] ! ((r + (i + 1)) mod n) = its ! ((r + (i + 1)) mod n)"
      by (rule nth_list_update_neq [OF not_sym])
    then have "its[r := y] ! (((r + 1) mod n + i) mod n) = its ! ((r + (i + 1)) mod n)"
      by (simp only: shift)
    also have "\<dots> = xs ! (i + 1)" using slots i1 by blast
    finally show "its[r := y] ! (((r + 1) mod n + i) mod n) = tl xs ! i"
      using i by (simp add: nth_tl)
  qed
  have "(a + 1) + length (tl xs) < n \<and> j - 1 \<le> length (tl xs) \<and>
        (r + 1) mod n = (rc + (a + 1)) mod n \<and> wc = ((r + 1) mod n + (j - 1)) mod n"
    using aj pos j r' wc' by simp
  then have "\<exists>a j. a + length (tl xs) < n \<and> j \<le> length (tl xs) \<and>
        (r + 1) mod n = (rc + a) mod n \<and> wc = ((r + 1) mod n + j) mod n" by blast
  then show "ring_ok n (its[r := y]) ((r + 1) mod n) wc w rc (tl xs)"
    unfolding ring_ok_def using li rc w' slots' by simp
qed

subsection \<open>The operations preserve the invariant\<close>

lemma emplace_eq:
  "emplace N x q =
     (if (writeIndex (writer q) + 1) AND index_mask N = readIndexCache (writer q)
      then if (writeIndex (writer q) + 1) AND index_mask N = readIndex (reader q)
           then (False, load_readIndex q)
           else (True, store_slot N x (load_readIndex q))
      else (True, store_slot N x q))"
  by (simp add: emplace_def Let_def load_readIndex_def store_slot_def)

lemma pop_eq:
  "pop T N item q =
     (if readIndex (reader q) = writeIndexCache (reader q)
      then if readIndex (reader q) = writeIndex (writer q)
           then (False, item, load_writeIndex q)
           else (True, items q ! unat (readIndex (reader q)), take_slot T N (load_writeIndex q))
      else (True, items q ! unat (readIndex (reader q)), take_slot T N q))"
  by (simp add: pop_def Let_def load_writeIndex_def take_slot_def skip_slot_def)

lemma pop_discard_eq:
  "pop_discard N q =
     (if readIndex (reader q) = writeIndexCache (reader q)
      then if readIndex (reader q) = writeIndex (writer q)
           then (False, load_writeIndex q)
           else (True, skip_slot N (load_writeIndex q))
      else (True, skip_slot N q))"
  by (simp add: pop_discard_def Let_def load_writeIndex_def skip_slot_def)

lemma consume_one_eq:
  "consume_one T N func s q =
     (if readIndex (reader q) = writeIndexCache (reader q)
      then if readIndex (reader q) = writeIndex (writer q)
           then (False, s, load_writeIndex q)
           else (True, func (items q ! unat (readIndex (reader q))) s,
                 take_slot T N (load_writeIndex q))
      else (True, func (items q ! unat (readIndex (reader q))) s, take_slot T N q))"
  by (simp add: consume_one_def Let_def load_writeIndex_def take_slot_def skip_slot_def)

lemma consume_one_pop:
  "consume_one T N func s q =
     (case pop T N item q of (ok, item', q') \<Rightarrow> (ok, if ok then func item' s else s, q'))"
  by (simp add: consume_one_eq pop_eq)

lemma sim_construct: "k < 64 \<Longrightarrow> sim (2 ^ k) (construct T (2 ^ k)) []"
  by (simp add: sim_def construct_def ring_ok_init unat_pow2)

lemma sim_reset: "sim N q xs \<Longrightarrow> sim N (reset q) []"
  unfolding sim_def reset_def by (auto dest: ring_okD intro: ring_ok_init)

lemma sim_load_readIndex: "sim N q xs \<Longrightarrow> sim N (load_readIndex q) xs"
  unfolding sim_def load_readIndex_def by (simp add: ring_ok_load_read)

lemma sim_load_writeIndex: "sim N q xs \<Longrightarrow> sim N (load_writeIndex q) xs"
  unfolding sim_def load_writeIndex_def by (simp add: ring_ok_load_write)

lemma sim_store_slot:
  assumes k: "k < 64" and s: "sim (2 ^ k) q xs"
    and room: "(writeIndex (writer q) + 1) AND index_mask (2 ^ k) \<noteq> readIndexCache (writer q)"
  shows "sim (2 ^ k) (store_slot (2 ^ k) x q) (xs @ [x])"
proof -
  from room have "(unat (writeIndex (writer q)) + 1) mod 2 ^ k \<noteq> unat (readIndexCache (writer q))"
    using unat_next_index [OF k] by (metis word_unat_eq_iff)
  with s show ?thesis
    unfolding sim_def store_slot_def
    using ring_ok_store [where n = "2 ^ k"] by (simp add: unat_next_index k unat_pow2)
qed

lemma sim_take_slot:
  assumes k: "k < 64" and s: "sim (2 ^ k) q xs"
    and avail: "readIndex (reader q) \<noteq> writeIndexCache (reader q)"
  shows "xs \<noteq> []" and "items q ! unat (readIndex (reader q)) = hd xs"
    and "sim (2 ^ k) (take_slot T (2 ^ k) q) (tl xs)"
    and "sim (2 ^ k) (skip_slot (2 ^ k) q) (tl xs)"
proof -
  from avail have ne: "unat (readIndex (reader q)) \<noteq> unat (writeIndexCache (reader q))"
    by (simp add: word_unat_eq_iff)
  from s have ok: "ring_ok (2 ^ k) (items q) (unat (readIndex (reader q)))
       (unat (writeIndexCache (reader q))) (unat (writeIndex (writer q)))
       (unat (readIndexCache (writer q))) xs"
    by (simp add: sim_def unat_pow2 k)
  from ring_ok_take(1) [OF ok ne] show "xs \<noteq> []" .
  from ring_ok_take(2) [OF ok ne] show "items q ! unat (readIndex (reader q)) = hd xs" .
  from ring_ok_take(3) [OF ok ne]
  show "sim (2 ^ k) (take_slot T (2 ^ k) q) (tl xs)"
    unfolding sim_def take_slot_def skip_slot_def
    by (simp add: unat_next_index k unat_pow2)
  from ring_ok_take(3) [OF ok ne, of "items q ! unat (readIndex (reader q))"]
  show "sim (2 ^ k) (skip_slot (2 ^ k) q) (tl xs)"
    unfolding sim_def skip_slot_def
    by (simp add: unat_next_index k unat_pow2)
qed

lemma load_readIndex_id:
  "readIndexCache (writer q) = readIndex (reader q) \<Longrightarrow> load_readIndex q = q"
  by (simp add: load_readIndex_def)

lemma load_writeIndex_id:
  "writeIndexCache (reader q) = writeIndex (writer q) \<Longrightarrow> load_writeIndex q = q"
  by (simp add: load_writeIndex_def)

lemma sim_lengthD: "sim N q xs \<Longrightarrow> length xs < unat N"
  unfolding sim_def by (rule ring_okD)

lemma sim_full_iff:
  assumes "k < 64" "sim (2 ^ k) q xs"
  shows "full (2 ^ k) q \<longleftrightarrow> length xs + 1 = 2 ^ k"
proof -
  have "full (2 ^ k) q \<longleftrightarrow>
        unat ((writeIndex (writer q) + 1) AND index_mask (2 ^ k)) = unat (readIndex (reader q))"
    by (simp add: full_def Let_def word_unat_eq_iff)
  also have "\<dots> \<longleftrightarrow> (unat (writeIndex (writer q)) + 1) mod 2 ^ k = unat (readIndex (reader q))"
    by (simp only: unat_next_index [OF assms(1)])
  also have "\<dots> \<longleftrightarrow> length xs + 1 = 2 ^ k"
    using assms ring_ok_full_iff [where n = "2 ^ k"] by (simp add: sim_def unat_pow2)
  finally show ?thesis .
qed

lemma sim_empty_iff:
  assumes "sim N q xs"
  shows "empty_q q \<longleftrightarrow> xs = []"
  using assms ring_ok_empty_iff unfolding sim_def empty_q_def word_unat_eq_iff by blast

lemma sim_emplace:
  assumes k: "k < 64" and s: "sim (2 ^ k) q xs" and e: "emplace (2 ^ k) x q = (ok, q')"
  shows "ok \<longleftrightarrow> length xs + 1 < 2 ^ k" and "ok \<longleftrightarrow> \<not> full (2 ^ k) q"
    and "sim (2 ^ k) q' (if ok then xs @ [x] else xs)"
    and "\<not> ok \<Longrightarrow> q' = q"
proof -
  let ?nw = "(writeIndex (writer q) + 1) AND index_mask (2 ^ k)"
  have len: "length xs < 2 ^ k" using sim_lengthD [OF s] by (simp add: unat_pow2 k)
  have main: "(ok \<longleftrightarrow> length xs + 1 < 2 ^ k) \<and> sim (2 ^ k) q' (if ok then xs @ [x] else xs)
      \<and> (\<not> ok \<longrightarrow> q' = q)"
  proof (cases "?nw = readIndexCache (writer q)")
    case False
    then have r: "ok" "q' = store_slot (2 ^ k) x q" using e by (simp_all add: emplace_eq)
    have "sim (2 ^ k) q' (xs @ [x])" unfolding r by (rule sim_store_slot [OF k s False])
    moreover from this have "length (xs @ [x]) < 2 ^ k"
      using sim_lengthD by (fastforce simp: unat_pow2 k)
    ultimately show ?thesis using r by simp
  next
    case True
    show ?thesis
    proof (cases "?nw = readIndex (reader q)")
      case False
      then have r: "ok" "q' = store_slot (2 ^ k) x (load_readIndex q)"
        using e True by (simp_all add: emplace_eq)
      have "(writeIndex (writer (load_readIndex q)) + 1) AND index_mask (2 ^ k)
              \<noteq> readIndexCache (writer (load_readIndex q))"
        using False by (simp add: load_readIndex_def)
      then have "sim (2 ^ k) q' (xs @ [x])"
        unfolding r by (rule sim_store_slot [OF k sim_load_readIndex [OF s]])
      moreover from this have "length (xs @ [x]) < 2 ^ k"
        using sim_lengthD by (fastforce simp: unat_pow2 k)
      ultimately show ?thesis using r by simp
    next
      case same: True
      then have r: "\<not> ok" "q' = load_readIndex q" using e True by (simp_all add: emplace_eq)
      have "q' = q" unfolding r using True same by (simp add: load_readIndex_id)
      moreover have "full (2 ^ k) q" using same by (simp add: full_def Let_def)
      then have "length xs + 1 = 2 ^ k" using sim_full_iff [OF k s] by simp
      ultimately show ?thesis using r s by simp
    qed
  qed
  then show "ok \<longleftrightarrow> length xs + 1 < 2 ^ k" "sim (2 ^ k) q' (if ok then xs @ [x] else xs)"
    "\<not> ok \<Longrightarrow> q' = q" by blast+
  from main len show "ok \<longleftrightarrow> \<not> full (2 ^ k) q"
    using sim_full_iff [OF k s] by auto
qed

lemma sim_pop:
  assumes k: "k < 64" and s: "sim (2 ^ k) q xs" and e: "pop T (2 ^ k) item q = (ok, item', q')"
  shows "ok \<longleftrightarrow> xs \<noteq> []" and "ok \<Longrightarrow> item' = hd xs"
    and "sim (2 ^ k) q' (if ok then tl xs else xs)"
    and "\<not> ok \<Longrightarrow> item' = item \<and> q' = q"
    and "ok \<Longrightarrow> readIndex (reader q') = (readIndex (reader q) + 1) AND index_mask (2 ^ k)"
proof -
  let ?r = "readIndex (reader q)"
  have main: "(ok \<longleftrightarrow> xs \<noteq> []) \<and> (ok \<longrightarrow> item' = hd xs)
      \<and> sim (2 ^ k) q' (if ok then tl xs else xs) \<and> (\<not> ok \<longrightarrow> item' = item \<and> q' = q)
      \<and> (ok \<longrightarrow> readIndex (reader q') = (?r + 1) AND index_mask (2 ^ k))"
  proof (cases "?r = writeIndexCache (reader q)")
    case False
    then have r: "ok" "item' = items q ! unat ?r" "q' = take_slot T (2 ^ k) q"
      using e by (simp_all add: pop_eq)
    show ?thesis using r sim_take_slot(1-3) [OF k s False]
      by (simp add: take_slot_def skip_slot_def)
  next
    case True
    show ?thesis
    proof (cases "?r = writeIndex (writer q)")
      case False
      then have r: "ok" "item' = items q ! unat ?r"
        "q' = take_slot T (2 ^ k) (load_writeIndex q)"
        using e True by (simp_all add: pop_eq)
      have avail: "readIndex (reader (load_writeIndex q)) \<noteq> writeIndexCache (reader (load_writeIndex q))"
        using False by (simp add: load_writeIndex_def)
      show ?thesis
        using r sim_take_slot(1-3) [OF k sim_load_writeIndex [OF s] avail]
        by (simp add: take_slot_def skip_slot_def load_writeIndex_def)
    next
      case same: True
      then have r: "\<not> ok" "item' = item" "q' = load_writeIndex q"
        using e True by (simp_all add: pop_eq)
      have "q' = q" unfolding r using True same by (simp add: load_writeIndex_id)
      moreover have "empty_q q" using same by (simp add: empty_q_def)
      then have "xs = []" using sim_empty_iff [OF s] by simp
      ultimately show ?thesis using r s by simp
    qed
  qed
  then show "ok \<longleftrightarrow> xs \<noteq> []" "ok \<Longrightarrow> item' = hd xs"
    "sim (2 ^ k) q' (if ok then tl xs else xs)" "\<not> ok \<Longrightarrow> item' = item \<and> q' = q"
    "ok \<Longrightarrow> readIndex (reader q') = (?r + 1) AND index_mask (2 ^ k)"
    by blast+
qed

lemma sim_pop_discard:
  assumes k: "k < 64" and s: "sim (2 ^ k) q xs" and e: "pop_discard (2 ^ k) q = (ok, q')"
  shows "ok \<longleftrightarrow> xs \<noteq> []" and "sim (2 ^ k) q' (if ok then tl xs else xs)"
proof -
  let ?r = "readIndex (reader q)"
  have main: "(ok \<longleftrightarrow> xs \<noteq> []) \<and> sim (2 ^ k) q' (if ok then tl xs else xs)"
  proof (cases "?r = writeIndexCache (reader q)")
    case False
    then have r: "ok" "q' = skip_slot (2 ^ k) q"
      using e by (simp_all add: pop_discard_eq)
    show ?thesis using r sim_take_slot(1,4) [OF k s False] by simp
  next
    case True
    show ?thesis
    proof (cases "?r = writeIndex (writer q)")
      case False
      then have r: "ok" "q' = skip_slot (2 ^ k) (load_writeIndex q)"
        using e True by (simp_all add: pop_discard_eq)
      have avail: "readIndex (reader (load_writeIndex q)) \<noteq> writeIndexCache (reader (load_writeIndex q))"
        using False by (simp add: load_writeIndex_def)
      show ?thesis
        using r sim_take_slot(1,4) [OF k sim_load_writeIndex [OF s] avail] by simp
    next
      case same: True
      then have r: "\<not> ok" "q' = load_writeIndex q"
        using e True by (simp_all add: pop_discard_eq)
      have "empty_q q" using same by (simp add: empty_q_def)
      then have "xs = []" using sim_empty_iff [OF s] by simp
      then show ?thesis using r sim_load_writeIndex [OF s] by simp
    qed
  qed
  then show "ok \<longleftrightarrow> xs \<noteq> []" "sim (2 ^ k) q' (if ok then tl xs else xs)" by blast+
qed

lemma sim_pop_discard_fail:
  assumes "pop_discard N q = (False, q')"
  shows "q' = q"
proof -
  from assms have "readIndex (reader q) = writeIndexCache (reader q)"
    "readIndex (reader q) = writeIndex (writer q)" "q' = load_writeIndex q"
    by (auto simp: pop_discard_eq split: if_splits)
  then show ?thesis by (simp add: load_writeIndex_id)
qed

subsection \<open>The blocking operations\<close>

lemma force_emplace_spin_stuck:
  assumes "force_emplace_spin nw q = Some y"
  shows "nw \<noteq> readIndexCache (writer q) \<or> nw \<noteq> readIndex (reader q)"
proof (rule force_emplace_spin.raw_induct
    [where P = "\<lambda>nw q y. nw \<noteq> readIndexCache (writer q) \<or> nw \<noteq> readIndex (reader q)",
      OF _ assms])
  fix spin :: "index_t \<Rightarrow> 'a spsc_queue \<Rightarrow> 'a spsc_queue option" and nw q y
  assume IH: "\<And>nw q y. spin nw q = Some y \<Longrightarrow>
      nw \<noteq> readIndexCache (writer q) \<or> nw \<noteq> readIndex (reader q)"
    and step: "(if nw = readIndexCache (writer q)
      then spin nw (q\<lparr>writer := (writer q)\<lparr>readIndexCache := readIndex (reader q)\<rparr>\<rparr>)
      else Some q) = Some y"
  show "nw \<noteq> readIndexCache (writer q) \<or> nw \<noteq> readIndex (reader q)"
  proof (cases "nw = readIndexCache (writer q)")
    case True
    with step have "spin nw (q\<lparr>writer := (writer q)\<lparr>readIndexCache := readIndex (reader q)\<rparr>\<rparr>) = Some y"
      by simp
    from IH [OF this] show ?thesis by simp
  next
    case False
    then show ?thesis by simp
  qed
qed

lemma force_emplace_spin_eq:
  "force_emplace_spin nw q =
     (if nw = readIndexCache (writer q)
      then if nw = readIndex (reader q) then None else Some (load_readIndex q)
      else Some q)"
proof (cases "nw = readIndexCache (writer q)")
  case False
  then show ?thesis by (simp add: force_emplace_spin.simps)
next
  case True
  show ?thesis
  proof (cases "nw = readIndex (reader q)")
    case False
    have "force_emplace_spin nw q = force_emplace_spin nw (load_readIndex q)"
      using True by (subst force_emplace_spin.simps) (simp add: load_readIndex_def)
    also have "\<dots> = Some (load_readIndex q)"
      using False by (subst force_emplace_spin.simps) (simp add: load_readIndex_def)
    finally show ?thesis using True False by simp
  next
    case same: True
    have "force_emplace_spin nw q = None"
    proof (cases "force_emplace_spin nw q")
      case (Some y)
      from force_emplace_spin_stuck [OF this] True same show ?thesis by simp
    qed simp
    then show ?thesis using True same by simp
  qed
qed

lemma force_emplace_eq:
  "force_emplace N x q = (case emplace N x q of (ok, q') \<Rightarrow> if ok then Some q' else None)"
  by (simp add: force_emplace_def Let_def force_emplace_spin_eq emplace_eq store_slot_def
      load_readIndex_def)

lemma force_pop_spin_stuck:
  assumes "force_pop_spin r wi q = Some y"
  shows "r \<noteq> wi \<or> r \<noteq> writeIndex (writer q)"
proof (rule force_pop_spin.raw_induct
    [where P = "\<lambda>r wi q y. r \<noteq> wi \<or> r \<noteq> writeIndex (writer q)", OF _ assms])
  fix spin :: "index_t \<Rightarrow> index_t \<Rightarrow> 'a spsc_queue \<Rightarrow> 'a spsc_queue option" and r wi q y
  assume IH: "\<And>r wi q y. spin r wi q = Some y \<Longrightarrow> r \<noteq> wi \<or> r \<noteq> writeIndex (writer q)"
    and step: "(if r = wi
      then spin r (writeIndex (writer q))
             (q\<lparr>reader := (reader q)\<lparr>writeIndexCache := writeIndex (writer q)\<rparr>\<rparr>)
      else Some q) = Some y"
  show "r \<noteq> wi \<or> r \<noteq> writeIndex (writer q)"
  proof (cases "r = wi")
    case True
    with step have "spin r (writeIndex (writer q))
        (q\<lparr>reader := (reader q)\<lparr>writeIndexCache := writeIndex (writer q)\<rparr>\<rparr>) = Some y"
      by simp
    from IH [OF this] show ?thesis by simp
  next
    case False
    then show ?thesis by simp
  qed
qed

lemma force_pop_spin_eq:
  "force_pop_spin r wi q =
     (if r = wi
      then if r = writeIndex (writer q) then None else Some (load_writeIndex q)
      else Some q)"
proof (cases "r = wi")
  case False
  then show ?thesis by (simp add: force_pop_spin.simps)
next
  case True
  show ?thesis
  proof (cases "r = writeIndex (writer q)")
    case False
    have "force_pop_spin r wi q = force_pop_spin r (writeIndex (writer q)) (load_writeIndex q)"
      using True by (subst force_pop_spin.simps) (simp add: load_writeIndex_def)
    also have "\<dots> = Some (load_writeIndex q)"
      using False by (subst force_pop_spin.simps) (simp add: load_writeIndex_def)
    finally show ?thesis using True False by simp
  next
    case same: True
    have "force_pop_spin r wi q = None"
    proof (cases "force_pop_spin r wi q")
      case (Some y)
      from force_pop_spin_stuck [OF this] True same show ?thesis by simp
    qed simp
    then show ?thesis using True same by simp
  qed
qed

lemma force_pop_eq:
  "force_pop T N q =
     (case pop T N item q of (ok, item', q') \<Rightarrow> if ok then Some (item', q') else None)"
  by (simp add: force_pop_def Let_def force_pop_spin_eq pop_eq take_slot_def skip_slot_def
      load_writeIndex_def)

lemma force_pop_discard_eq:
  "force_pop_discard N q =
     (case pop_discard N q of (ok, q') \<Rightarrow> if ok then Some q' else None)"
  by (simp add: force_pop_discard_def Let_def force_pop_spin_eq pop_discard_eq skip_slot_def
      load_writeIndex_def)

lemma emplace_not_full: "\<not> full N q \<Longrightarrow> fst (emplace N x q)"
  by (simp add: emplace_eq full_def Let_def)

lemma pop_not_empty: "\<not> empty_q q \<Longrightarrow> fst (pop T N item q)"
  by (auto simp: pop_eq empty_q_def)

lemma pop_discard_not_empty: "\<not> empty_q q \<Longrightarrow> fst (pop_discard N q)"
  by (auto simp: pop_discard_eq empty_q_def)

subsection \<open>Batch consumption\<close>

lemma sim_consume_one:
  assumes k: "k < 64" and s: "sim (2 ^ k) q xs"
    and e: "consume_one T (2 ^ k) func st q = (ok, st', q')"
  shows "ok \<longleftrightarrow> xs \<noteq> []" and "st' = (if ok then func (hd xs) st else st)"
    and "sim (2 ^ k) q' (if ok then tl xs else xs)"
    and "\<not> ok \<Longrightarrow> q' = q"
    and "ok \<Longrightarrow> readIndex (reader q') = (readIndex (reader q) + 1) AND index_mask (2 ^ k)"
proof -
  obtain ok0 it q0 where p: "pop T (2 ^ k) (value_init T) q = (ok0, it, q0)"
    by (cases "pop T (2 ^ k) (value_init T) q") auto
  with e have r: "ok = ok0" "st' = (if ok0 then func it st else st)" "q' = q0"
    by (auto simp: consume_one_pop [where item = "value_init T"])
  note sp = sim_pop [OF k s p]
  show "ok \<longleftrightarrow> xs \<noteq> []" using sp(1) r by simp
  show "st' = (if ok then func (hd xs) st else st)" using sp(2) r by simp
  show "sim (2 ^ k) q' (if ok then tl xs else xs)" using sp(3) r by simp
  show "\<not> ok \<Longrightarrow> q' = q" using sp(4) r by simp
  show "ok \<Longrightarrow> readIndex (reader q') = (readIndex (reader q) + 1) AND index_mask (2 ^ k)"
    using sp(5) r by simp
qed

lemma sim_consume_all_loop:
  assumes k: "k < 64"
  shows "sim (2 ^ k) q xs \<Longrightarrow>
    \<exists>q'. consume_all_loop T (2 ^ k) func n st q = Some (n + of_nat (length xs), fold func xs st, q')
          \<and> sim (2 ^ k) q' []"
proof (induction xs arbitrary: q n st)
  case Nil
  obtain ok st' q' where c: "consume_one T (2 ^ k) func st q = (ok, st', q')"
    by (cases "consume_one T (2 ^ k) func st q") auto
  from sim_consume_one [OF k Nil c] have "\<not> ok" "st' = st" "q' = q" by simp_all
  with c Nil show ?case by (subst consume_all_loop.simps) simp
next
  case (Cons x xs)
  obtain ok st' q' where c: "consume_one T (2 ^ k) func st q = (ok, st', q')"
    by (cases "consume_one T (2 ^ k) func st q") auto
  from sim_consume_one [OF k Cons.prems c]
  have r: "ok" "st' = func x st" "sim (2 ^ k) q' xs" by simp_all
  from Cons.IH [OF r(3), of "n + 1" "func x st"] obtain q'' where
    "consume_all_loop T (2 ^ k) func (n + 1) (func x st) q'
       = Some (n + 1 + of_nat (length xs), fold func xs (func x st), q'')"
    "sim (2 ^ k) q'' []" by blast
  then show ?case using c r
    by (subst consume_all_loop.simps) (simp add: add.assoc add.commute)
qed

lemma sim_consume_all:
  assumes k: "k < 64" and s: "sim (2 ^ k) q xs"
  shows "\<exists>n q'. consume_all T (2 ^ k) func st q = Some (n, fold func xs st, q')
          \<and> unat n = length xs \<and> sim (2 ^ k) q' []"
proof -
  from sim_consume_all_loop [OF k s, of T func 0 st] obtain q' where
    c: "consume_all_loop T (2 ^ k) func 0 st q = Some (of_nat (length xs), fold func xs st, q')"
    and s': "sim (2 ^ k) q' []" by auto
  have "length xs < 2 ^ k" using sim_lengthD [OF s] by (simp add: unat_pow2 k)
  then have "unat (of_nat (length xs) :: index_t) = length xs" by (rule unat_of_nat_small [OF k])
  with c s' show ?thesis by (simp add: consume_all_def)
qed

lemma sim_consume_n_loop:
  assumes k: "k < 64"
  shows "sim (2 ^ k) q xs \<Longrightarrow> m \<le> n \<Longrightarrow>
    \<exists>q'. consume_n_loop T (2 ^ k) func n m st q
            = (m + of_nat (min (unat n - unat m) (length xs)),
               fold func (take (min (unat n - unat m) (length xs)) xs) st, q')
          \<and> sim (2 ^ k) q' (drop (min (unat n - unat m) (length xs)) xs)"
proof (induction xs arbitrary: q m st)
  case Nil
  obtain ok st' q' where c: "consume_one T (2 ^ k) func st q = (ok, st', q')"
    by (cases "consume_one T (2 ^ k) func st q") auto
  from sim_consume_one [OF k Nil(1) c] have "\<not> ok" "st' = st" "q' = q" by simp_all
  with c Nil show ?case by (subst consume_n_loop.simps) simp
next
  case (Cons x xs)
  show ?case
  proof (cases "m < n")
    case False
    with Cons.prems(2) have "m = n" by simp
    then show ?thesis using Cons.prems(1) by (subst consume_n_loop.simps) simp
  next
    case True
    note u = unat_succ_less [OF True]
    from True have mn: "unat m < unat n" by (simp add: word_less_nat_alt)
    obtain ok st' q' where c: "consume_one T (2 ^ k) func st q = (ok, st', q')"
      by (cases "consume_one T (2 ^ k) func st q") auto
    from sim_consume_one [OF k Cons.prems(1) c]
    have r: "ok" "st' = func x st" "sim (2 ^ k) q' xs" by simp_all
    let ?c = "min (unat n - unat (m + 1)) (length xs)"
    from Cons.IH [OF r(3) u(2), of "func x st"] obtain q'' where
      l: "consume_n_loop T (2 ^ k) func n (m + 1) (func x st) q'
         = (m + 1 + of_nat ?c, fold func (take ?c xs) (func x st), q'')"
      and s'': "sim (2 ^ k) q'' (drop ?c xs)" by blast
    have cc: "min (unat n - unat m) (length (x # xs)) = Suc ?c"
      using mn u(1) by simp
    have "consume_n_loop T (2 ^ k) func n m st q
         = (m + of_nat (Suc ?c), fold func (take (Suc ?c) (x # xs)) st, q'')"
      using True c r l by (subst consume_n_loop.simps) (simp add: add.assoc add.commute)
    moreover have "sim (2 ^ k) q'' (drop (Suc ?c) (x # xs))" using s'' by simp
    ultimately show ?thesis unfolding cc by blast
  qed
qed

lemma sim_consume_n:
  assumes k: "k < 64" and s: "sim (2 ^ k) q xs"
    and e: "consume_n T (2 ^ k) func n st q = (m, st', q')"
  shows "unat m = min (unat n) (length xs)"
    and "st' = fold func (take (unat m) xs) st"
    and "sim (2 ^ k) q' (drop (unat m) xs)"
proof -
  let ?c = "min (unat n) (length xs)"
  from sim_consume_n_loop [OF k s, of 0 n T func st] e
  have r: "m = of_nat ?c" "st' = fold func (take ?c xs) st" "sim (2 ^ k) q' (drop ?c xs)"
    by (auto simp: consume_n_def)
  have "length xs < 2 ^ k" using sim_lengthD [OF s] by (simp add: unat_pow2 k)
  then have "?c < 2 ^ k" by simp
  then have u: "unat m = ?c" unfolding r(1) by (rule unat_of_nat_small [OF k])
  show "unat m = ?c" by (rule u)
  show "st' = fold func (take (unat m) xs) st" using r u by simp
  show "sim (2 ^ k) q' (drop (unat m) xs)" using r u by simp
qed

subsection \<open>Every reachable state satisfies the invariant\<close>

lemma sim_indices:
  assumes "sim N q xs"
  shows "readIndex (reader q) < N" "writeIndex (writer q) < N"
    "readIndexCache (writer q) < N" "writeIndexCache (reader q) < N"
  using assms unfolding sim_def word_less_nat_alt by (rule ring_okD)+

lemma sim_size:
  assumes k: "k < 64" and s: "sim (2 ^ k) q xs"
  shows "unat (size_q (2 ^ k) q) = length xs"
proof -
  let ?N = "(2::index_t) ^ k" and ?w = "writeIndex (writer q)" and ?r = "readIndex (reader q)"
  have ok: "ring_ok (unat ?N) (items q) (unat ?r) (unat (writeIndexCache (reader q)))
      (unat ?w) (unat (readIndexCache (writer q))) xs"
    using s by (simp add: sim_def)
  note sz = ring_ok_size [OF ok]
  have rN: "unat ?r < unat ?N" and wN: "unat ?w < unat ?N" using ok by (rule ring_okD)+
  show ?thesis
  proof (cases "?r \<le> ?w")
    case True
    then have "unat (size_q ?N q) = unat ?w - unat ?r"
      by (simp add: size_q_def Let_def unat_sub)
    with sz True show ?thesis by (simp add: word_le_nat_alt)
  next
    case False
    then have lt: "unat ?w < unat ?r" by (simp add: word_le_nat_alt)
    have "?r \<le> ?N" using rN by (simp add: word_le_nat_alt)
    then have d: "unat (?N - ?r) = unat ?N - unat ?r" by (rule unat_sub)
    have "unat ?N < 2 ^ LENGTH(64)" by (rule unsigned_less)
    then have "unat (?N - ?r) + unat ?w < 2 ^ LENGTH(64)" using d lt rN by simp
    then have "unat ((?N - ?r) + ?w) = unat (?N - ?r) + unat ?w"
      by (rule unat_add_lem [THEN iffD1])
    then have "unat (size_q ?N q) = (unat ?N - unat ?r) + unat ?w"
      using False d by (simp add: size_q_def Let_def)
    with sz lt show ?thesis by simp
  qed
qed

lemma drop_step:
  assumes "d \<le> length es" "drop d es \<noteq> []"
  shows "Suc d \<le> length es" and "tl (drop d es) = drop (Suc d) es"
  using assms by (simp_all add: drop_Suc tl_drop)

lemma reach_sim:
  assumes k: "k < 64"
  shows "reach T (2 ^ k) q s es d \<Longrightarrow> d \<le> length es \<and> sim (2 ^ k) q (drop d es)"
proof (induction rule: reach.induct)
  case (constructed s)
  show ?case by (simp add: sim_construct k)
next
  case (emplace q s es d x ok q')
  then have sq: "sim (2 ^ k) q (drop d es)" and d: "d \<le> length es" by simp_all
  from sim_emplace(3) [OF k sq emplace(2)] d show ?case by (cases ok) simp_all
next
  case (push q s es d x ok q')
  then have sq: "sim (2 ^ k) q (drop d es)" and d: "d \<le> length es" by simp_all
  from sim_emplace(3) [OF k sq push(2) [unfolded push_def]] d show ?case by (cases ok) simp_all
next
  case (force_emplace q s es d x q')
  then have sq: "sim (2 ^ k) q (drop d es)" and d: "d \<le> length es" by simp_all
  from force_emplace(2) have "emplace (2 ^ k) x q = (True, q')"
    by (auto simp: force_emplace_eq split: prod.splits if_splits)
  from sim_emplace(3) [OF k sq this] d show ?case by simp
next
  case (force_push q s es d x q')
  then have sq: "sim (2 ^ k) q (drop d es)" and d: "d \<le> length es" by simp_all
  from force_push(2) have "emplace (2 ^ k) x q = (True, q')"
    by (auto simp: force_push_def force_emplace_eq split: prod.splits if_splits)
  from sim_emplace(3) [OF k sq this] d show ?case by simp
next
  case (pop q s es d item ok item' q')
  then have sq: "sim (2 ^ k) q (drop d es)" and d: "d \<le> length es" by simp_all
  from sim_pop(1,3) [OF k sq pop(2)] d show ?case
    by (cases ok) (simp_all add: drop_step)
next
  case (pop_discard q s es d ok q')
  then have sq: "sim (2 ^ k) q (drop d es)" and d: "d \<le> length es" by simp_all
  from sim_pop_discard [OF k sq pop_discard(2)] d show ?case
    by (cases ok) (simp_all add: drop_step)
next
  case (force_pop q s es d item' q')
  then have sq: "sim (2 ^ k) q (drop d es)" and d: "d \<le> length es" by simp_all
  from force_pop(2) have "pop T (2 ^ k) (value_init T) q = (True, item', q')"
    by (auto simp: force_pop_eq [where item = "value_init T"] split: prod.splits if_splits)
  from sim_pop(1,3) [OF k sq this] d show ?case by (simp add: drop_step)
next
  case (force_pop_discard q s es d q')
  then have sq: "sim (2 ^ k) q (drop d es)" and d: "d \<le> length es" by simp_all
  from force_pop_discard(2) have "pop_discard (2 ^ k) q = (True, q')"
    by (auto simp: force_pop_discard_eq split: prod.splits if_splits)
  from sim_pop_discard [OF k sq this] d show ?case by (simp add: drop_step)
next
  case (consume_one q s es d func ok s' q')
  then have sq: "sim (2 ^ k) q (drop d es)" and d: "d \<le> length es" by simp_all
  from sim_consume_one(1,3) [OF k sq consume_one(2)] d show ?case
    by (cases ok) (simp_all add: drop_step)
next
  case (consume_all q s es d func n s' q')
  from consume_all(3) have sq: "sim (2 ^ k) q (drop d es)" and d: "d \<le> length es" by simp_all
  from sim_consume_all [OF k sq, of T func s] consume_all(2)
  have "unat n = length (drop d es)" "sim (2 ^ k) q' []" by auto
  with d show ?case by simp
next
  case (consume_n q s es d func n m s' q')
  from consume_n(3) have sq: "sim (2 ^ k) q (drop d es)" and d: "d \<le> length es" by simp_all
  from sim_consume_n(1,3) [OF k sq consume_n(2)]
  have "unat m \<le> length (drop d es)" "sim (2 ^ k) q' (drop (unat m) (drop d es))" by simp_all
  with d show ?case by (simp add: add.commute)
next
  case (reset q s es d)
  then show ?case by (auto intro: sim_reset)
qed

lemma sim_emplace_seq:
  assumes k: "k < 64"
  shows "sim (2 ^ k) q xs \<Longrightarrow> emplace_seq (2 ^ k) ys q = (oks, q') \<Longrightarrow>
    length oks = length ys \<and>
    sim (2 ^ k) q' (xs @ map snd (filter fst (zip oks ys))) \<and>
    ((\<forall>ok\<in>set oks. ok) \<longleftrightarrow> length xs + length ys < 2 ^ k)"
proof (induction ys arbitrary: q xs oks q')
  case Nil
  then show ?case using sim_lengthD [of "2 ^ k" q xs] by (simp add: unat_pow2 k)
next
  case (Cons y ys)
  obtain ok q1 where e: "emplace (2 ^ k) y q = (ok, q1)"
    by (cases "emplace (2 ^ k) y q") auto
  obtain oks1 q2 where r: "emplace_seq (2 ^ k) ys q1 = (oks1, q2)"
    by (cases "emplace_seq (2 ^ k) ys q1") auto
  from Cons.prems(2) e r have res: "oks = ok # oks1" "q' = q2" by simp_all
  note se = sim_emplace [OF k Cons.prems(1) e]
  from Cons.IH [OF se(3) r]
  have ih: "length oks1 = length ys"
    "sim (2 ^ k) q2 ((if ok then xs @ [y] else xs) @ map snd (filter fst (zip oks1 ys)))"
    "(\<forall>ok\<in>set oks1. ok) \<longleftrightarrow> length (if ok then xs @ [y] else xs) + length ys < 2 ^ k"
    by simp_all
  show ?case
  proof (cases ok)
    case True
    with ih se(1) res show ?thesis by simp
  next
    case False
    with ih se(1) res show ?thesis by simp
  qed
qed

lemma sim_pop_seq:
  assumes k: "k < 64"
  shows "sim (2 ^ k) q xs \<Longrightarrow> pop_seq T (2 ^ k) m item q = (rs, q') \<Longrightarrow>
    length rs = m \<and>
    ((\<forall>r\<in>set rs. fst r) \<longleftrightarrow> m \<le> length xs) \<and>
    ((\<forall>r\<in>set rs. fst r) \<longrightarrow> map snd rs = take m xs \<and> sim (2 ^ k) q' (drop m xs))"
proof (induction m arbitrary: q xs item rs q')
  case 0
  then show ?case by simp
next
  case (Suc m)
  obtain ok item1 q1 where e: "pop T (2 ^ k) item q = (ok, item1, q1)"
    by (cases "pop T (2 ^ k) item q") auto
  obtain rs1 q2 where r: "pop_seq T (2 ^ k) m item1 q1 = (rs1, q2)"
    by (cases "pop_seq T (2 ^ k) m item1 q1") auto
  from Suc.prems(2) e r have res: "rs = (ok, item1) # rs1" "q' = q2" by simp_all
  note sp = sim_pop [OF k Suc.prems(1) e]
  note ih = Suc.IH [OF sp(3) r]
  show ?case
  proof (cases ok)
    case False
    with sp(1) res ih show ?thesis by simp
  next
    case True
    with sp(1) obtain x xs' where xs: "xs = x # xs'" by (cases xs) auto
    with True sp(2) have "item1 = x" by simp
    with True xs res ih show ?thesis by auto
  qed
qed

lemma reach_emplace_seq:
  "reach T N q s es d \<Longrightarrow> emplace_seq N ys q = (oks, q') \<Longrightarrow>
     reach T N q' s (es @ map snd (filter fst (zip oks ys))) d"
proof (induction ys arbitrary: q es oks q')
  case Nil
  then show ?case by simp
next
  case (Cons y ys)
  obtain ok q1 where e: "emplace N y q = (ok, q1)" by (cases "emplace N y q") auto
  obtain oks1 q2 where r: "emplace_seq N ys q1 = (oks1, q2)"
    by (cases "emplace_seq N ys q1") auto
  from Cons.prems(2) e r have res: "oks = ok # oks1" "q' = q2" by simp_all
  from Cons.IH [OF reach.emplace [OF Cons.prems(1) e] r] res show ?case
    by (cases ok) simp_all
qed

lemma drop_hd_nth: "d < length es \<Longrightarrow> hd (drop d es) = es ! d"
  by (simp add: hd_drop_conv_nth)

section \<open>Properties of the queue\<close>

subsection \<open>FIFO order\<close>

text \<open>
  Claim C1 (FIFO order). Take any state a single thread has brought the queue to. If the
  thread then enqueues the values \<open>ys\<close> with \<open>emplace\<close> (\<open>push\<close> is the same call), every
  call returning \<open>true\<close>, and then calls \<open>pop\<close> \<open>m\<close> times, every call returning \<open>true\<close>,
  the values it pops are, in this order, the first \<open>m\<close> of the values that were live in the
  queue followed by \<open>ys\<close>: they come out in the order they were enqueued. From a freshly
  constructed queue they are the first \<open>m\<close> of \<open>ys\<close>.
\<close>

theorem fifo_order:
  assumes "k < 64" and "reach T (2 ^ k) q s es d"
    and "emplace_seq (2 ^ k) ys q = (oks, q1)" and "\<forall>ok\<in>set oks. ok"
    and "pop_seq T (2 ^ k) m item q1 = (rs, q2)" and "\<forall>r\<in>set rs. fst r"
  shows "map snd rs = take m (drop d es @ ys)"
proof -
  from reach_sim [OF assms(1,2)] have sq: "sim (2 ^ k) q (drop d es)" by simp
  from sim_emplace_seq [OF assms(1) sq assms(3)] assms(4)
  have len: "length oks = length ys"
    and s1: "sim (2 ^ k) q1 (drop d es @ map snd (filter fst (zip oks ys)))" by simp_all
  from assms(4) have "filter fst (zip oks ys) = zip oks ys"
    by (auto simp: filter_id_conv dest: set_zip_leftD)
  with len s1 have "sim (2 ^ k) q1 (drop d es @ ys)" by simp
  from sim_pop_seq [OF assms(1) this assms(5)] assms(6) show ?thesis by simp
qed

text \<open>
  With four slots: 1, 2, 3 are enqueued into a fresh queue and three pops return 1, 2, 3.
\<close>

theorem fifo_order_witness:
  "(let T = \<lparr>value_init = 0::nat, moved_from = id\<rparr>;
        q0 = construct T (2 ^ 2);
        enq = emplace_seq (2 ^ 2) [1, 2, 3] q0;
        deq = pop_seq T (2 ^ 2) 3 0 (snd enq)
    in reach T (2 ^ 2) q0 () [] 0 \<and>
       fst enq = [True, True, True] \<and>
       map fst (fst deq) = [True, True, True] \<and>
       map snd (fst deq) = [1, 2, 3])"
proof -
  let ?T = "\<lparr>value_init = 0::nat, moved_from = id\<rparr>"
  let ?q0 = "construct ?T (2 ^ 2)"
  let ?enq = "emplace_seq (2 ^ 2) [1, 2, 3] ?q0"
  let ?deq = "pop_seq ?T (2 ^ 2) 3 0 (snd ?enq)"
  have k: "(2::nat) < 64" by simp
  have r: "reach ?T (2 ^ 2) ?q0 () [] 0" by (rule reach.constructed)
  have e: "?enq = (fst ?enq, snd ?enq)" by (rule prod.collapse [symmetric])
  have p: "?deq = (fst ?deq, snd ?deq)" by (rule prod.collapse [symmetric])
  have oks: "fst ?enq = [True, True, True]"
    by (simp add: emplace_def construct_def index_mask_def Let_def)
  have rs: "map fst (fst ?deq) = [True, True, True]"
    by (simp add: emplace_def pop_def construct_def index_mask_def Let_def numeral_3_eq_3)
  have all_enq: "\<forall>ok\<in>set (fst ?enq). ok" unfolding oks by simp
  have "set (map fst (fst ?deq)) = {True}" unfolding rs by simp
  then have all_deq: "\<forall>r\<in>set (fst ?deq). fst r" by auto
  have "map snd (fst ?deq) = take 3 (drop 0 [] @ [1, 2, 3])"
    by (rule fifo_order [OF k r e all_enq p all_deq])
  then have "map snd (fst ?deq) = [1, 2, 3]" by simp
  with r oks rs show ?thesis unfolding Let_def by blast
qed

subsection \<open>A freshly constructed queue\<close>

text \<open>
  Claim C2 (a fresh queue). For \<open>N = 2 ^ k\<close>, a freshly constructed queue is empty, its
  \<open>size()\<close> is 0 and \<open>capacity()\<close> is \<open>N - 1\<close>. Enqueueing any list of at most \<open>N - 1\<close>
  values succeeds for every value and brings \<open>size()\<close> to the number of values; after
  that the queue is full exactly when \<open>N - 1\<close> values went in, and one more \<open>emplace\<close>
  succeeds exactly when fewer did. So exactly \<open>N - 1\<close> consecutive enqueues succeed, then
  \<open>full()\<close> holds and the \<open>N\<close>-th enqueue returns \<open>false\<close>.
\<close>

theorem fresh_queue_capacity:
  assumes k: "k < 64" and len: "length ys \<le> 2 ^ k - 1"
  shows "empty_q (construct T (2 ^ k)) \<and> size_q (2 ^ k) (construct T (2 ^ k)) = 0 \<and>
    capacity (2 ^ k) = 2 ^ k - 1 \<and> unat (capacity (2 ^ k)) = 2 ^ k - 1 \<and>
    (case emplace_seq (2 ^ k) ys (construct T (2 ^ k)) of (oks, q) \<Rightarrow>
       oks = replicate (length ys) True \<and>
       unat (size_q (2 ^ k) q) = length ys \<and>
       (full (2 ^ k) q \<longleftrightarrow> length ys = 2 ^ k - 1) \<and>
       (fst (emplace (2 ^ k) y q) \<longleftrightarrow> length ys < 2 ^ k - 1))"
proof (intro conjI)
  show "empty_q (construct T (2 ^ k))" by (simp add: empty_q_def construct_def)
  show "size_q (2 ^ k) (construct T (2 ^ k)) = 0" by (simp add: size_q_def construct_def)
  show "capacity (2 ^ k) = 2 ^ k - 1" by (simp add: capacity_def index_mask_def)
  have "(1::index_t) \<le> 2 ^ k" using unat_pow2 [OF k] by (simp add: word_le_nat_alt)
  then have "unat ((2::index_t) ^ k - 1) = unat ((2::index_t) ^ k) - unat (1::index_t)"
    by (rule unat_sub)
  then show "unat (capacity (2 ^ k)) = 2 ^ k - 1"
    by (simp add: capacity_def index_mask_def unat_pow2 k)
  obtain oks q where e: "emplace_seq (2 ^ k) ys (construct T (2 ^ k)) = (oks, q)"
    by (cases "emplace_seq (2 ^ k) ys (construct T (2 ^ k))") auto
  note se = sim_emplace_seq [OF k sim_construct [OF k] e]
  have pos: "0 < (2::nat) ^ k" by simp
  with len have lt: "length ys < 2 ^ k" by linarith
  have a1: "length ys + 1 = 2 ^ k \<longleftrightarrow> length ys = 2 ^ k - 1" using pos by linarith
  have a2: "length ys + 1 < 2 ^ k \<longleftrightarrow> length ys < 2 ^ k - 1" using pos by linarith
  from se lt have all: "\<forall>ok\<in>set oks. ok" and lo: "length oks = length ys" by auto
  then have oks: "oks = replicate (length ys) True"
    by (metis (full_types) replicate_length_same)
  from all have "filter fst (zip oks ys) = zip oks ys"
    by (auto simp: filter_id_conv dest: set_zip_leftD)
  with se lo have sq: "sim (2 ^ k) q ys" by simp
  obtain ok q' where e1: "emplace (2 ^ k) y q = (ok, q')" by (cases "emplace (2 ^ k) y q") auto
  have "fst (emplace (2 ^ k) y q) \<longleftrightarrow> length ys + 1 < 2 ^ k"
    using sim_emplace(1) [OF k sq e1] e1 by simp
  moreover have "full (2 ^ k) q \<longleftrightarrow> length ys + 1 = 2 ^ k" by (rule sim_full_iff [OF k sq])
  moreover have "unat (size_q (2 ^ k) q) = length ys" by (rule sim_size [OF k sq])
  ultimately show "case emplace_seq (2 ^ k) ys (construct T (2 ^ k)) of (oks, q) \<Rightarrow>
          oks = replicate (length ys) True \<and>
          unat (size_q (2 ^ k) q) = length ys \<and>
          (full (2 ^ k) q \<longleftrightarrow> length ys = 2 ^ k - 1) \<and>
          (fst (emplace (2 ^ k) y q) \<longleftrightarrow> length ys < 2 ^ k - 1)"
    using e oks unfolding a1 a2 by simp
qed

text \<open>
  Eight slots: 1 to 7 are accepted, the queue is full, 8 is refused, the capacity is 7.
\<close>

theorem fresh_queue_capacity_witness:
  "length [1, 2, 3, 4, 5, 6, 7 :: nat] \<le> 2 ^ 3 - 1 \<and>
   empty_q (construct \<lparr>value_init = 0::nat, moved_from = id\<rparr> 8) \<and>
   size_q 8 (construct \<lparr>value_init = 0::nat, moved_from = id\<rparr> 8) = 0 \<and>
   capacity 8 = 7 \<and>
   fst (emplace_seq 8 [1, 2, 3, 4, 5, 6, 7]
          (construct \<lparr>value_init = 0::nat, moved_from = id\<rparr> 8))
     = [True, True, True, True, True, True, True] \<and>
   full 8 (snd (emplace_seq 8 [1, 2, 3, 4, 5, 6, 7]
          (construct \<lparr>value_init = 0::nat, moved_from = id\<rparr> 8))) \<and>
   \<not> fst (emplace 8 8 (snd (emplace_seq 8 [1, 2, 3, 4, 5, 6, 7]
          (construct \<lparr>value_init = 0::nat, moved_from = id\<rparr> 8))))"
proof -
  let ?T = "\<lparr>value_init = 0::nat, moved_from = id\<rparr>"
  have k: "(3::nat) < 64" by simp
  have len: "length [1, 2, 3, 4, 5, 6, 7 :: nat] \<le> 2 ^ 3 - 1" by simp
  from fresh_queue_capacity [OF k len, of ?T 8] len show ?thesis
    by (simp add: case_prod_beta numeral_eq_Suc)
qed

subsection \<open>Size\<close>

text \<open>
  Claim C3 (size). In every state a single thread can reach, \<open>size()\<close> is the number of
  enqueues that succeeded minus the number of dequeues that succeeded (since construction
  or the last \<open>reset\<close>), and it is computed as \<open>write - read\<close> when \<open>write \<ge> read\<close> and as
  \<open>(N - read) + write\<close> otherwise.
\<close>

theorem size_counts_live_elements:
  assumes "k < 64" and "reach T (2 ^ k) q s es d"
  shows "d \<le> length es \<and> unat (size_q (2 ^ k) q) = length es - d \<and>
    size_q (2 ^ k) q =
      (if writeIndex (writer q) \<ge> readIndex (reader q)
       then writeIndex (writer q) - readIndex (reader q)
       else (2 ^ k - readIndex (reader q)) + writeIndex (writer q))"
proof -
  from reach_sim [OF assms] have d: "d \<le> length es" and sq: "sim (2 ^ k) q (drop d es)"
    by simp_all
  from sim_size [OF assms(1) sq] d show ?thesis by (simp add: size_q_def Let_def)
qed

text \<open>
  Four slots, with the write index wrapped round to 0: after enqueueing 1, 2, 3, popping
  once and enqueueing 4, the read index is 1 and \<open>size()\<close> is \<open>(4 - 1) + 0 = 3\<close>.
\<close>

theorem size_counts_live_elements_witness:
  "(let T = \<lparr>value_init = 0::nat, moved_from = id\<rparr>;
        q1 = snd (emplace_seq (2 ^ 2) [1, 2, 3] (construct T (2 ^ 2)));
        q2 = snd (snd (pop T (2 ^ 2) 0 q1));
        q3 = snd (emplace (2 ^ 2) 4 q2)
    in reach T (2 ^ 2) q3 () [1, 2, 3, 4] 1 \<and>
       writeIndex (writer q3) = 0 \<and> readIndex (reader q3) = 1 \<and>
       size_q (2 ^ 2) q3 = (2 ^ 2 - 1) + 0 \<and> unat (size_q (2 ^ 2) q3) = 3)"
proof -
  let ?T = "\<lparr>value_init = 0::nat, moved_from = id\<rparr>"
  let ?q0 = "construct ?T (2 ^ 2)"
  let ?q1 = "snd (emplace_seq (2 ^ 2) [1, 2, 3] ?q0)"
  let ?q2 = "snd (snd (pop ?T (2 ^ 2) 0 ?q1))"
  let ?q3 = "snd (emplace (2 ^ 2) 4 ?q2)"
  have e1: "emplace_seq (2 ^ 2) [1, 2, 3] ?q0 = ([True, True, True], ?q1)"
    by (simp add: emplace_def construct_def index_mask_def Let_def)
  have e2: "pop ?T (2 ^ 2) 0 ?q1 = (True, 1, ?q2)"
    by (simp add: emplace_def pop_def construct_def index_mask_def Let_def)
  have e3: "emplace (2 ^ 2) 4 ?q2 = (True, ?q3)"
    by (simp add: emplace_def pop_def construct_def index_mask_def Let_def)
  have r1: "reach ?T (2 ^ 2) ?q1 () [1, 2, 3] 0"
    using reach_emplace_seq [OF reach.constructed e1] by simp
  have r2: "reach ?T (2 ^ 2) ?q2 () [1, 2, 3] 1"
    using reach.pop [OF r1 e2] by simp
  have r3: "reach ?T (2 ^ 2) ?q3 () [1, 2, 3, 4] 1"
    using reach.emplace [OF r2 e3] by simp
  have idx: "writeIndex (writer ?q3) = 0" "readIndex (reader ?q3) = 1"
    by (simp_all add: emplace_def pop_def construct_def index_mask_def Let_def)
  from size_counts_live_elements [OF _ r3] idx r3 show ?thesis
    by (simp add: Let_def)
qed

subsection \<open>Failed operations\<close>

text \<open>
  Claim C4 (failure changes nothing). In every reachable state where \<open>full()\<close> holds,
  \<open>emplace\<close> and \<open>push\<close> return \<open>false\<close> and the queue they leave is the queue they found:
  slots, both indices and both caches. In every reachable state where \<open>empty()\<close> holds,
  both overloads of \<open>pop\<close> return \<open>false\<close>, the queue is unchanged and so is the caller's
  \<open>item\<close>.
\<close>

theorem failed_enqueue_dequeue_change_nothing:
  assumes "k < 64" and "reach T (2 ^ k) q s es d"
  shows "(full (2 ^ k) q \<longrightarrow>
            emplace (2 ^ k) x q = (False, q) \<and> push (2 ^ k) x q = (False, q)) \<and>
         (empty_q q \<longrightarrow>
            pop T (2 ^ k) item q = (False, item, q) \<and> pop_discard (2 ^ k) q = (False, q))"
proof -
  from reach_sim [OF assms] have sq: "sim (2 ^ k) q (drop d es)" by simp
  have enq: "emplace (2 ^ k) x q = (False, q)" if f: "full (2 ^ k) q"
  proof -
    obtain ok q' where e: "emplace (2 ^ k) x q = (ok, q')" by (cases "emplace (2 ^ k) x q") auto
    from sim_emplace(2,4) [OF assms(1) sq e] f have "\<not> ok" "q' = q" by simp_all
    with e show ?thesis by simp
  qed
  have deq: "pop T (2 ^ k) item q = (False, item, q) \<and> pop_discard (2 ^ k) q = (False, q)"
    if e: "empty_q q"
  proof -
    from e have nil: "drop d es = []" using sim_empty_iff [OF sq] by simp
    obtain ok item' q' where p: "pop T (2 ^ k) item q = (ok, item', q')"
      by (cases "pop T (2 ^ k) item q") auto
    from sim_pop(1,4) [OF assms(1) sq p] nil have "\<not> ok" "item' = item" "q' = q" by simp_all
    with p have one: "pop T (2 ^ k) item q = (False, item, q)" by simp
    obtain ok1 q1 where p1: "pop_discard (2 ^ k) q = (ok1, q1)"
      by (cases "pop_discard (2 ^ k) q") auto
    from sim_pop_discard(1) [OF assms(1) sq p1] nil have "\<not> ok1" by simp
    with p1 sim_pop_discard_fail [of "2 ^ k" q q1] have "pop_discard (2 ^ k) q = (False, q)"
      by simp
    with one show ?thesis by simp
  qed
  from enq deq show ?thesis by (simp add: push_def)
qed

text \<open>
  Four slots: a queue filled with 1, 2, 3 refuses 4 and stays as it is; popping from a fresh
  queue fails and leaves queue and output variable as they are.
\<close>

theorem failed_enqueue_dequeue_change_nothing_witness:
  "(let T = \<lparr>value_init = 0::nat, moved_from = id\<rparr>;
        q0 = construct T (2 ^ 2);
        q1 = snd (emplace_seq (2 ^ 2) [1, 2, 3] q0)
    in reach T (2 ^ 2) q1 () [1, 2, 3] 0 \<and> full (2 ^ 2) q1 \<and>
       emplace (2 ^ 2) 4 q1 = (False, q1) \<and> push (2 ^ 2) 4 q1 = (False, q1) \<and>
       reach T (2 ^ 2) q0 () [] 0 \<and> empty_q q0 \<and>
       pop T (2 ^ 2) 9 q0 = (False, 9, q0) \<and> pop_discard (2 ^ 2) q0 = (False, q0))"
proof -
  let ?T = "\<lparr>value_init = 0::nat, moved_from = id\<rparr>"
  let ?q0 = "construct ?T (2 ^ 2)"
  let ?q1 = "snd (emplace_seq (2 ^ 2) [1, 2, 3] ?q0)"
  have e1: "emplace_seq (2 ^ 2) [1, 2, 3] ?q0 = ([True, True, True], ?q1)"
    by (simp add: emplace_def construct_def index_mask_def Let_def)
  have r0: "reach ?T (2 ^ 2) ?q0 () [] 0" by (rule reach.constructed)
  have r1: "reach ?T (2 ^ 2) ?q1 () [1, 2, 3] 0"
    using reach_emplace_seq [OF r0 e1] by simp
  have f: "full (2 ^ 2) ?q1"
    by (simp add: full_def emplace_def construct_def index_mask_def Let_def)
  have e: "empty_q ?q0" by (simp add: empty_q_def construct_def)
  from failed_enqueue_dequeue_change_nothing [OF _ r1, of 4] f
    failed_enqueue_dequeue_change_nothing [OF _ r0, of _ 9] e r0 r1
  show ?thesis by (simp add: Let_def)
qed

subsection \<open>Peeking at the front\<close>

text \<open>
  Claim C5 (\<open>front\<close>). The claim: on a non-empty queue \<open>front()\<close> returns the element in the
  slot selected by the read index. The code selects the slot through \<open>reader_.readIdx_\<close>,
  a member \<open>ReadState\<close> does not have, so \<open>front()\<close> yields no element in any state.
\<close>

theorem front_selects_no_member:
  "ReadState_member ''readIdx_'' (reader q) = None \<and> front q = None"
  by (simp add: front_def ReadState_member_def)

subsection \<open>Storage placement\<close>

text \<open>
  Claim C6. The claim: the slot array is allocated on the heap when the footprint
  \<open>2 * N * cacheLineSize\<close> exceeds 512 KiB and is embedded inline otherwise. The code
  selects the specialisations the other way round: a queue of 8 slots (1 KiB) gets the
  \<open>std::unique_ptr\<close> specialisation and one \<open>make_unique\<close>, a queue of 8192 slots
  (1 MiB) gets the inline \<open>std::array\<close>.
\<close>

theorem storage_selection_inverted:
  "storage_bytes 8 = 1024 \<and> \<not> use_heap 8 \<and> items_placement 8 = Heap_allocated \<and>
   storage_bytes 8192 = 1048576 \<and> use_heap 8192 \<and> items_placement 8192 = Inline_array"
  by (simp add: items_placement_def use_heap_def storage_bytes_def STACK_BYTES_def
      cacheLineSize_def)

subsection \<open>Consuming one element\<close>

text \<open>
  Claim C7 (\<open>consume_one\<close>). In every reachable state: when the queue is empty,
  \<open>consume_one\<close> returns \<open>false\<close> and leaves the caller's state and the queue as they are, so
  the callback has not run; when it is not empty, \<open>consume_one\<close> returns \<open>true\<close>, the
  caller's state is the result of one call of the callback on the oldest live element,
  the read index has advanced by one (modulo \<open>N\<close>) and \<open>size()\<close> has dropped by one.
\<close>

theorem consume_one_behaviour:
  assumes "k < 64" and "reach T (2 ^ k) q s es d"
  shows "(empty_q q \<longrightarrow> consume_one T (2 ^ k) func st q = (False, st, q)) \<and>
         (\<not> empty_q q \<longrightarrow> d < length es \<and>
            (\<exists>q'. consume_one T (2 ^ k) func st q = (True, func (es ! d) st, q') \<and>
                  readIndex (reader q') = (readIndex (reader q) + 1) AND index_mask (2 ^ k) \<and>
                  unat (size_q (2 ^ k) q') = unat (size_q (2 ^ k) q) - 1))"
proof -
  from reach_sim [OF assms] have d: "d \<le> length es" and sq: "sim (2 ^ k) q (drop d es)"
    by simp_all
  obtain ok st' q' where c: "consume_one T (2 ^ k) func st q = (ok, st', q')"
    by (cases "consume_one T (2 ^ k) func st q") auto
  note sc = sim_consume_one [OF assms(1) sq c]
  show ?thesis
  proof (cases "empty_q q")
    case True
    then have "drop d es = []" using sim_empty_iff [OF sq] by simp
    with sc(1,2,4) have "\<not> ok" "st' = st" "q' = q" by simp_all
    with c True show ?thesis by simp
  next
    case False
    then have ne: "drop d es \<noteq> []" using sim_empty_iff [OF sq] by simp
    then have dl: "d < length es" by simp
    from ne sc have ok: "ok" and st': "st' = func (es ! d) st"
      and s': "sim (2 ^ k) q' (tl (drop d es))"
      and r': "readIndex (reader q') = (readIndex (reader q) + 1) AND index_mask (2 ^ k)"
      using dl by (simp_all add: drop_hd_nth)
    have "unat (size_q (2 ^ k) q') = unat (size_q (2 ^ k) q) - 1"
      using sim_size [OF assms(1) s'] sim_size [OF assms(1) sq] by simp
    with c ok st' r' dl False show ?thesis by simp
  qed
qed

text \<open>
  Eight slots, with a callback that appends its argument to a list: on a fresh queue
  nothing is consumed; after enqueueing 10 and 20 the first call logs 10, the second 20,
  and the queue is empty.
\<close>

theorem consume_one_behaviour_witness:
  "(let T = \<lparr>value_init = 0::nat, moved_from = id\<rparr>;
        log = (\<lambda>v vs. vs @ [v]);
        q0 = construct T (2 ^ 3);
        q2 = snd (emplace_seq (2 ^ 3) [10, 20] q0);
        r1 = consume_one T (2 ^ 3) log [] q2;
        r2 = consume_one T (2 ^ 3) log (fst (snd r1)) (snd (snd r1))
    in reach T (2 ^ 3) q0 () [] 0 \<and> empty_q q0 \<and>
       consume_one T (2 ^ 3) log [] q0 = (False, [], q0) \<and>
       reach T (2 ^ 3) q2 () [10, 20] 0 \<and> \<not> empty_q q2 \<and>
       fst r1 \<and> fst (snd r1) = [10] \<and>
       fst r2 \<and> fst (snd r2) = [10, 20] \<and> empty_q (snd (snd r2)))"
proof -
  let ?T = "\<lparr>value_init = 0::nat, moved_from = id\<rparr>"
  let ?log = "\<lambda>(v::nat) vs. vs @ [v]"
  let ?q0 = "construct ?T (2 ^ 3)"
  let ?q2 = "snd (emplace_seq (2 ^ 3) [10, 20] ?q0)"
  let ?r1 = "consume_one ?T (2 ^ 3) ?log [] ?q2"
  let ?r2 = "consume_one ?T (2 ^ 3) ?log (fst (snd ?r1)) (snd (snd ?r1))"
  have e: "emplace_seq (2 ^ 3) [10, 20] ?q0 = ([True, True], ?q2)"
    by (simp add: emplace_def construct_def index_mask_def Let_def)
  have r0: "reach ?T (2 ^ 3) ?q0 () [] 0" by (rule reach.constructed)
  have r2: "reach ?T (2 ^ 3) ?q2 () [10, 20] 0"
    using reach_emplace_seq [OF r0 e] by simp
  have e0: "empty_q ?q0" by (simp add: empty_q_def construct_def)
  have ne: "\<not> empty_q ?q2"
    by (simp add: empty_q_def emplace_def construct_def index_mask_def Let_def)
  have c0: "consume_one ?T (2 ^ 3) ?log [] ?q0 = (False, [], ?q0)"
    using consume_one_behaviour [OF _ r0, of ?log "[]"] e0 by simp
  have c1: "fst ?r1 \<and> fst (snd ?r1) = [10]"
    using consume_one_behaviour [OF _ r2, of ?log "[]"] ne by auto
  have c2: "fst ?r2 \<and> fst (snd ?r2) = [10, 20] \<and> empty_q (snd (snd ?r2))"
    by (simp add: consume_one_def empty_q_def emplace_def construct_def index_mask_def Let_def)
  from r0 e0 c0 r2 ne c1 c2 show ?thesis by (simp add: Let_def)
qed

subsection \<open>Draining the queue\<close>

text \<open>
  Claim C8 (\<open>consume_all\<close>). In every reachable state \<open>consume_all\<close> terminates; the
  caller's state is the result of calling the callback on each live element once, oldest
  first; the count it returns is the number of live elements, which is \<open>size()\<close> before
  the call; and the queue is empty afterwards.
\<close>

theorem consume_all_drains:
  assumes "k < 64" and "reach T (2 ^ k) q s es d"
  shows "\<exists>n q'. consume_all T (2 ^ k) func st q = Some (n, fold func (drop d es) st, q') \<and>
           unat n = length es - d \<and> unat n = unat (size_q (2 ^ k) q) \<and> empty_q q'"
proof -
  from reach_sim [OF assms] have sq: "sim (2 ^ k) q (drop d es)" by simp
  from sim_consume_all [OF assms(1) sq, of T func st] obtain n q' where
    c: "consume_all T (2 ^ k) func st q = Some (n, fold func (drop d es) st, q')"
    and n: "unat n = length (drop d es)" and s': "sim (2 ^ k) q' []" by blast
  from s' have "empty_q q'" using sim_empty_iff by blast
  with c n sim_size [OF assms(1) sq] show ?thesis by simp
qed

text \<open>
  Eight slots holding 0, 1, 2, 3, 4: the callback sees them in this order, the count is 5
  and the queue is empty.
\<close>

theorem consume_all_drains_witness:
  "(let T = \<lparr>value_init = 0::nat, moved_from = id\<rparr>;
        q = snd (emplace_seq (2 ^ 3) [0, 1, 2, 3, 4] (construct T (2 ^ 3)))
    in reach T (2 ^ 3) q () [0, 1, 2, 3, 4] 0 \<and>
       (\<exists>q'. consume_all T (2 ^ 3) (\<lambda>v vs. vs @ [v]) [] q = Some (5, [0, 1, 2, 3, 4], q') \<and>
             empty_q q'))"
proof -
  let ?T = "\<lparr>value_init = 0::nat, moved_from = id\<rparr>"
  let ?c0 = "construct ?T (2 ^ 3)"
  let ?c5 = "snd (emplace_seq (2 ^ 3) [0, 1, 2, 3, 4] ?c0)"
  have e: "emplace_seq (2 ^ 3) [0, 1, 2, 3, 4] ?c0 = ([True, True, True, True, True], ?c5)"
    by (simp add: emplace_def construct_def index_mask_def Let_def)
  have r: "reach ?T (2 ^ 3) ?c5 () [0, 1, 2, 3, 4] 0"
    using reach_emplace_seq [OF reach.constructed e] by simp
  have k: "(3::nat) < 64" by simp
  from consume_all_drains [OF k r, of "\<lambda>v vs. vs @ [v]" "[]"] obtain n q' where
    c: "consume_all ?T (2 ^ 3) (\<lambda>v vs. vs @ [v]) [] ?c5
          = Some (n, fold (\<lambda>v vs. vs @ [v]) (drop 0 [0, 1, 2, 3, 4]) [], q')"
    and n: "unat n = length [0, 1, 2, 3, 4 :: nat] - 0" and e': "empty_q q'" by blast
  have f: "fold (\<lambda>v vs. vs @ [v]) (drop 0 [0, 1, 2, 3, 4 :: nat]) [] = [0, 1, 2, 3, 4]"
    by simp
  have "word_of_nat (unat n) = n" by simp
  with n have n5: "n = 5" by simp
  from c have c': "consume_all ?T (2 ^ 3) (\<lambda>v vs. vs @ [v]) [] ?c5 = Some (5, [0, 1, 2, 3, 4], q')"
    unfolding n5 f .
  show ?thesis unfolding Let_def using r c' e' by blast
qed

subsection \<open>Blocking operations\<close>

text \<open>
  Claim C9 (blocking operations). In every reachable state: if the queue is not full,
  \<open>force_emplace\<close> and \<open>force_push\<close> terminate and leave the queue that a successful
  \<open>emplace\<close> leaves; if it is not empty, \<open>force_pop\<close> terminates, hands out the oldest live
  element and leaves the queue that a successful \<open>pop\<close> leaves (likewise for the overload
  without output variable). And whenever a blocking operation returns at all, the
  non-blocking one succeeds in that state with the same result: none of them returns
  without having enqueued or dequeued.
\<close>

theorem force_operations_succeed:
  assumes "k < 64" and "reach T (2 ^ k) q s es d"
  shows "(\<not> full (2 ^ k) q \<longrightarrow>
            (\<exists>q'. force_emplace (2 ^ k) x q = Some q' \<and> force_push (2 ^ k) x q = Some q' \<and>
                  emplace (2 ^ k) x q = (True, q'))) \<and>
         (\<not> empty_q q \<longrightarrow> d < length es \<and>
            (\<exists>q'. force_pop T (2 ^ k) q = Some (es ! d, q') \<and>
                  pop T (2 ^ k) item q = (True, es ! d, q')) \<and>
            (\<exists>q'. force_pop_discard (2 ^ k) q = Some q' \<and>
                  pop_discard (2 ^ k) q = (True, q'))) \<and>
         (\<forall>q'. force_emplace (2 ^ k) x q = Some q' \<longrightarrow> emplace (2 ^ k) x q = (True, q')) \<and>
         (\<forall>v q'. force_pop T (2 ^ k) q = Some (v, q') \<longrightarrow> pop T (2 ^ k) item q = (True, v, q')) \<and>
         (\<forall>q'. force_pop_discard (2 ^ k) q = Some q' \<longrightarrow> pop_discard (2 ^ k) q = (True, q'))"
proof (intro conjI impI allI)
  from reach_sim [OF assms] have d: "d \<le> length es" and sq: "sim (2 ^ k) q (drop d es)"
    by simp_all
  obtain ok1 q1 where e: "emplace (2 ^ k) x q = (ok1, q1)"
    by (cases "emplace (2 ^ k) x q") auto
  obtain ok2 v2 q2 where p: "pop T (2 ^ k) item q = (ok2, v2, q2)"
    by (cases "pop T (2 ^ k) item q") auto
  obtain ok3 q3 where pd: "pop_discard (2 ^ k) q = (ok3, q3)"
    by (cases "pop_discard (2 ^ k) q") auto
  show "\<exists>q'. force_emplace (2 ^ k) x q = Some q' \<and> force_push (2 ^ k) x q = Some q' \<and>
      emplace (2 ^ k) x q = (True, q')" if "\<not> full (2 ^ k) q"
    using emplace_not_full [OF that, of x] e
    by (simp add: force_push_def force_emplace_eq)
  show "d < length es" if "\<not> empty_q q"
    using that sim_empty_iff [OF sq] by simp
  show "\<exists>q'. force_pop T (2 ^ k) q = Some (es ! d, q') \<and>
      pop T (2 ^ k) item q = (True, es ! d, q')" if ne: "\<not> empty_q q"
  proof -
    from ne have dl: "d < length es" using sim_empty_iff [OF sq] by simp
    from pop_not_empty [OF ne, of T "2 ^ k" item] p have "ok2" by simp
    with sim_pop(2) [OF assms(1) sq p] dl have "v2 = es ! d" by (simp add: drop_hd_nth)
    with p \<open>ok2\<close> show ?thesis by (simp add: force_pop_eq [where item = item])
  qed
  show "\<exists>q'. force_pop_discard (2 ^ k) q = Some q' \<and> pop_discard (2 ^ k) q = (True, q')"
    if "\<not> empty_q q"
    using pop_discard_not_empty [OF that, of "2 ^ k"] pd by (simp add: force_pop_discard_eq)
  show "emplace (2 ^ k) x q = (True, q')" if "force_emplace (2 ^ k) x q = Some q'" for q'
    using that e by (simp add: force_emplace_eq split: if_splits)
  show "pop T (2 ^ k) item q = (True, v, q')" if "force_pop T (2 ^ k) q = Some (v, q')" for v q'
    using that p by (simp add: force_pop_eq [where item = item] split: if_splits)
  show "pop_discard (2 ^ k) q = (True, q')" if "force_pop_discard (2 ^ k) q = Some q'" for q'
    using that pd by (simp add: force_pop_discard_eq split: if_splits)
qed

text \<open>
  Four slots holding the value 1: \<open>force_emplace\<close> of 2 and \<open>force_pop\<close> both return, with
  the results of \<open>emplace\<close> and \<open>pop\<close>.
\<close>

theorem force_operations_succeed_witness:
  "(let T = \<lparr>value_init = 0::nat, moved_from = id\<rparr>;
        q1 = snd (emplace (2 ^ 2) 1 (construct T (2 ^ 2)))
    in reach T (2 ^ 2) q1 () [1] 0 \<and> \<not> full (2 ^ 2) q1 \<and> \<not> empty_q q1 \<and>
       force_emplace (2 ^ 2) 2 q1 = Some (snd (emplace (2 ^ 2) 2 q1)) \<and>
       fst (emplace (2 ^ 2) 2 q1) \<and>
       force_pop T (2 ^ 2) q1 = Some (1, snd (snd (pop T (2 ^ 2) 0 q1))) \<and>
       fst (pop T (2 ^ 2) 0 q1))"
proof -
  let ?T = "\<lparr>value_init = 0::nat, moved_from = id\<rparr>"
  let ?q0 = "construct ?T (2 ^ 2)"
  let ?q1 = "snd (emplace (2 ^ 2) 1 ?q0)"
  have e: "emplace (2 ^ 2) 1 ?q0 = (True, ?q1)"
    by (simp add: emplace_def construct_def index_mask_def Let_def)
  have r: "reach ?T (2 ^ 2) ?q1 () [1] 0"
    using reach.emplace [OF reach.constructed e] by simp
  have nf: "\<not> full (2 ^ 2) ?q1"
    by (simp add: full_def emplace_def construct_def index_mask_def Let_def)
  have ne: "\<not> empty_q ?q1"
    by (simp add: empty_q_def emplace_def construct_def index_mask_def Let_def)
  have k: "(2::nat) < 64" by simp
  note w = force_operations_succeed [OF k r, of 2 0]
  from w nf obtain qa where
    a: "force_emplace (2 ^ 2) 2 ?q1 = Some qa" "emplace (2 ^ 2) 2 ?q1 = (True, qa)" by blast
  from w ne obtain qb where
    b: "force_pop ?T (2 ^ 2) ?q1 = Some ([1] ! 0, qb)" "pop ?T (2 ^ 2) 0 ?q1 = (True, [1] ! 0, qb)"
    by blast
  have "force_emplace (2 ^ 2) 2 ?q1 = Some (snd (emplace (2 ^ 2) 2 ?q1))"
    "fst (emplace (2 ^ 2) 2 ?q1)"
    unfolding a by simp_all
  moreover have "force_pop ?T (2 ^ 2) ?q1 = Some (1, snd (snd (pop ?T (2 ^ 2) 0 ?q1)))"
    "fst (pop ?T (2 ^ 2) 0 ?q1)"
    unfolding b by simp_all
  ultimately show ?thesis unfolding Let_def using r nf ne by blast
qed

subsection \<open>Index bounds\<close>

text \<open>
  Claim C10 (index bounds). In every state reachable from a freshly constructed queue of
  \<open>N = 2 ^ k\<close> slots, the write index and the read index are below \<open>N\<close>, and so are the
  two cached copies; \<open>size()\<close> is at most \<open>N - 1\<close>; and the slot array has \<open>N\<close> slots, so
  every slot access is in range.
\<close>

theorem indices_below_N:
  assumes "k < 64" and "reach T (2 ^ k) q s es d"
  shows "writeIndex (writer q) < 2 ^ k \<and> readIndex (reader q) < 2 ^ k \<and>
         readIndexCache (writer q) < 2 ^ k \<and> writeIndexCache (reader q) < 2 ^ k \<and>
         size_q (2 ^ k) q \<le> 2 ^ k - 1 \<and> length (items q) = unat ((2::index_t) ^ k)"
proof -
  from reach_sim [OF assms] have sq: "sim (2 ^ k) q (drop d es)" by simp
  have "unat (size_q (2 ^ k) q) < 2 ^ k"
    using sim_size [OF assms(1) sq] sim_lengthD [OF sq] by (simp add: unat_pow2 assms(1))
  moreover have "(1::index_t) \<le> 2 ^ k"
    using unat_pow2 [OF assms(1)] by (simp add: word_le_nat_alt)
  then have "unat ((2::index_t) ^ k - 1) = 2 ^ k - 1"
    using unat_sub [of 1 "(2::index_t) ^ k"] by (simp add: unat_pow2 assms(1))
  ultimately have "size_q (2 ^ k) q \<le> 2 ^ k - 1" by (simp add: word_le_nat_alt)
  moreover have "length (items q) = unat ((2::index_t) ^ k)"
    using sq unfolding sim_def by (rule ring_okD)
  ultimately show ?thesis using sim_indices [OF sq] by simp
qed

text \<open>
  Four slots, after enqueueing 1, 2, 3, popping once and enqueueing 4.
\<close>

theorem indices_below_N_witness:
  "(let T = \<lparr>value_init = 0::nat, moved_from = id\<rparr>;
        q1 = snd (emplace_seq (2 ^ 2) [1, 2, 3] (construct T (2 ^ 2)));
        q2 = snd (snd (pop T (2 ^ 2) 0 q1));
        q3 = snd (emplace (2 ^ 2) 4 q2)
    in reach T (2 ^ 2) q3 () [1, 2, 3, 4] 1 \<and>
       writeIndex (writer q3) < 2 ^ 2 \<and> readIndex (reader q3) < 2 ^ 2 \<and>
       size_q (2 ^ 2) q3 \<le> 2 ^ 2 - 1)"
proof -
  let ?T = "\<lparr>value_init = 0::nat, moved_from = id\<rparr>"
  let ?q0 = "construct ?T (2 ^ 2)"
  let ?q1 = "snd (emplace_seq (2 ^ 2) [1, 2, 3] ?q0)"
  let ?q2 = "snd (snd (pop ?T (2 ^ 2) 0 ?q1))"
  let ?q3 = "snd (emplace (2 ^ 2) 4 ?q2)"
  have e1: "emplace_seq (2 ^ 2) [1, 2, 3] ?q0 = ([True, True, True], ?q1)"
    by (simp add: emplace_def construct_def index_mask_def Let_def)
  have e2: "pop ?T (2 ^ 2) 0 ?q1 = (True, 1, ?q2)"
    by (simp add: emplace_def pop_def construct_def index_mask_def Let_def)
  have e3: "emplace (2 ^ 2) 4 ?q2 = (True, ?q3)"
    by (simp add: emplace_def pop_def construct_def index_mask_def Let_def)
  have r1: "reach ?T (2 ^ 2) ?q1 () [1, 2, 3] 0"
    using reach_emplace_seq [OF reach.constructed e1] by simp
  have r2: "reach ?T (2 ^ 2) ?q2 () [1, 2, 3] 1"
    using reach.pop [OF r1 e2] by simp
  have r3: "reach ?T (2 ^ 2) ?q3 () [1, 2, 3, 4] 1"
    using reach.emplace [OF r2 e3] by simp
  have k: "(2::nat) < 64" by simp
  from indices_below_N [OF k r3] r3 show ?thesis unfolding Let_def by blast
qed

end
